theory Spec2Isabelle
  imports Main
begin

section \<open>Executor strategies of bonobo: a shallow embedding\<close>

text \<open>
  The module \<^verbatim>\<open>bonobo/execution/strategies/executor.py\<close> drives a graph of nodes on a
  \<^verbatim>\<open>concurrent.futures\<close> executor. Everything it does is a call on a collaborator (the
  execution context, the executor, the node, the event loop, the logger), so the
  embedding is a set of state-passing functions over a world that records, in order,
  every such call together with its outcome. The collaborators are parameters: a record
  of functions that says, for each call, whether it returns or raises.
\<close>

subsection \<open>Exceptions\<close>

text \<open>
  The classes the \<^verbatim>\<open>except\<close> clauses of the module tell apart. \<open>Exception name\<close> is any
  other class derived from \<^verbatim>\<open>Exception\<close>; \<^verbatim>\<open>NotImplementedError\<close> is derived from it as
  well. \<^verbatim>\<open>KeyboardInterrupt\<close>, \<^verbatim>\<open>SystemExit\<close> and \<^verbatim>\<open>GeneratorExit\<close> derive from
  \<^verbatim>\<open>BaseException\<close> only.
\<close>

datatype exc =
    KeyboardInterrupt
  | SystemExit
  | GeneratorExit
  | NotImplementedError string
  | Exception string

text \<open>\<^verbatim>\<open>except Exception:\<close> catches exactly these.\<close>

fun is_Exception :: "exc \<Rightarrow> bool" where
  "is_Exception KeyboardInterrupt = False"
| "is_Exception SystemExit = False"
| "is_Exception GeneratorExit = False"
| "is_Exception (NotImplementedError m) = True"
| "is_Exception (Exception c) = True"

text \<open>\<^verbatim>\<open>except KeyboardInterrupt:\<close> catches exactly these.\<close>

fun is_KeyboardInterrupt :: "exc \<Rightarrow> bool" where
  "is_KeyboardInterrupt KeyboardInterrupt = True"
| "is_KeyboardInterrupt e = False"

subsection \<open>Graphs, executors, units of work, handles\<close>

type_synonym node = nat

text \<open>Of a graph the module reads its length and hands its nodes to the context.\<close>

type_synonym graph = "node list"

datatype factory = Executor | ThreadPoolExecutor | ProcessPoolExecutor

text \<open>
  An executor as the module sees it: the class that made it and the \<^verbatim>\<open>max_workers\<close>
  keyword it was made with (\<open>None\<close> when the factory was called with no argument).
\<close>

record executor =
  made_by :: factory
  max_workers :: "nat option"

text \<open>
  What is handed to \<^verbatim>\<open>executor.submit\<close>: the closure \<^verbatim>\<open>_runner\<close> of a node, or, through
  \<^verbatim>\<open>loop.run_in_executor(executor, starter, node)\<close>, the call \<^verbatim>\<open>starter(node)\<close> of the
  starter that \<^verbatim>\<open>ExecutorStrategy.get_starter(executor, futures)\<close> built for an executor.
\<close>

datatype task = Runner node | Starter executor node

text \<open>
  \<open>Future t\<close> is what \<^verbatim>\<open>executor.submit\<close> returns, \<open>AsyncFuture t\<close> the awaitable that
  \<^verbatim>\<open>loop.run_in_executor\<close> wraps around it. A Python \<^verbatim>\<open>None\<close> is \<open>None :: handle option\<close>.
\<close>

datatype handle = Future task | AsyncFuture task

datatype strategy =
    ExecutorStrategy
  | ThreadPoolExecutorStrategy
  | AsyncThreadPoolExecutorStrategy
  | ProcessPoolExecutorStrategy

subsection \<open>The record of calls\<close>

text \<open>
  One event for each call on a collaborator, written when the call ends, with its
  outcome (\<open>None\<close>: it returned; \<open>Some e\<close>: it raised \<open>e\<close>). \<^verbatim>\<open>context.start\<close> calls back
  into the module, so it has an event at its beginning and one at its end.
  \<open>ReleaseExecutor\<close> is written when the \<^verbatim>\<open>with\<close> block is left, that is when
  \<^verbatim>\<open>Executor.__exit__\<close> is called; how that call ends shows in the result of \<^verbatim>\<open>execute\<close>.
\<close>

datatype event =
    GetEventLoop "exc option"
  | CreateContext "exc option"
  | Write "exc option"
  | CreateExecutor factory "nat option" "exc option"
  | EnterExecutor
  | StartBegin
  | Offer node
  | CheckLoop "exc option"
  | Submit executor task "exc option"
  | Append handle
  | StartEnd "exc option"
  | LogCritical string
  | LogWarning string
  | Alive bool
  | Tick "exc option"
  | Kill "exc option"
  | Stop "exc option"
  | ReleaseExecutor
  | NodeEnter node "exc option"
  | NodeLoop node "exc option"
  | NodeExit node "exc option" "exc + bool"
  | GetSetting string bool

subsection \<open>The collaborators\<close>

text \<open>
  None of these is defined in the module. \<open>'c\<close> is the state of the execution context.
  A method of the context returns the state it leaves behind, also when it raises.
  \<^item> \<open>build_context\<close>: \<^verbatim>\<open>Strategy.create_graph_execution_context\<close> of the base class;
  \<^item> \<open>get_event_loop\<close>: \<^verbatim>\<open>asyncio.get_event_loop()\<close>;
  \<^item> \<open>ctx_write\<close>, \<open>ctx_alive\<close>, \<open>ctx_tick\<close>, \<open>ctx_kill\<close>, \<open>ctx_stop\<close>: \<^verbatim>\<open>context.write(BEGIN, (), END)\<close>,
    \<^verbatim>\<open>context.alive\<close>, \<^verbatim>\<open>context.tick()\<close>, \<^verbatim>\<open>context.kill()\<close>, \<^verbatim>\<open>context.stop()\<close>;
  \<^item> \<open>ctx_start_begin\<close>, \<open>ctx_start_end\<close>: what \<^verbatim>\<open>context.start\<close> does of its own before
    and after it offers the nodes to the starter;
  \<^item> \<open>factory_call\<close>: the constructor of the executor class;
  \<^item> \<open>executor_submit\<close>: \<^verbatim>\<open>executor.submit\<close>;
  \<^item> \<open>executor_shutdown\<close>: \<^verbatim>\<open>executor.shutdown(wait=True)\<close>, which waits for the submitted
    work: \<open>None\<close> when the wait never ends, \<open>Some None\<close> when it returns, \<open>Some (Some e)\<close>
    when it raises \<open>e\<close>;
  \<^item> \<open>loop_check\<close>: the check \<^verbatim>\<open>loop.run_in_executor\<close> makes before it submits (it raises
    on a closed loop);
  \<^item> \<open>node_enter\<close>, \<open>node_loop\<close>, \<open>node_exit\<close>: \<^verbatim>\<open>node.__enter__()\<close>, \<^verbatim>\<open>node.loop()\<close> and
    \<^verbatim>\<open>node.__exit__(...)\<close>, the last given the exception in flight, returning whether it
    suppresses it;
  \<^item> \<open>setting_ALPHA\<close>: \<^verbatim>\<open>settings.ALPHA.get()\<close>.
\<close>

record 'c collaborators =
  build_context :: "strategy \<Rightarrow> graph \<Rightarrow> exc + 'c"
  get_event_loop :: "exc option"
  ctx_write :: "'c \<Rightarrow> exc option \<times> 'c"
  ctx_start_begin :: "'c \<Rightarrow> exc option \<times> 'c"
  ctx_start_end :: "'c \<Rightarrow> exc option \<times> 'c"
  ctx_alive :: "'c \<Rightarrow> bool"
  ctx_tick :: "'c \<Rightarrow> exc option \<times> 'c"
  ctx_kill :: "'c \<Rightarrow> exc option \<times> 'c"
  ctx_stop :: "'c \<Rightarrow> exc option \<times> 'c"
  factory_call :: "factory \<Rightarrow> nat option \<Rightarrow> exc option"
  executor_submit :: "executor \<Rightarrow> task \<Rightarrow> exc option"
  executor_shutdown :: "executor \<Rightarrow> exc option option"
  loop_check :: "exc option"
  node_enter :: "node \<Rightarrow> exc option"
  node_loop :: "node \<Rightarrow> exc option"
  node_exit :: "node \<Rightarrow> exc option \<Rightarrow> exc + bool"
  setting_ALPHA :: bool

subsection \<open>The world of one call of execute\<close>

record 'c world =
  ctx :: 'c
  futures :: "handle list"
  trace :: "event list"

definition emit :: "event list \<Rightarrow> 'c world \<Rightarrow> 'c world" where
  "emit evs w = w\<lparr>trace := trace w @ evs\<rparr>"

type_synonym 'c starter_fn = "node \<Rightarrow> 'c world \<Rightarrow> (exc + handle option) \<times> 'c world"

subsection \<open>The node runner\<close>

text \<open>
  The statement \<^verbatim>\<open>with node: node.loop()\<close>. If \<^verbatim>\<open>__enter__\<close> raises, the body does not run
  and \<^verbatim>\<open>__exit__\<close> is not called. Otherwise \<^verbatim>\<open>__exit__\<close> is called once, with the exception
  of the body if there is one; that exception goes on unless \<^verbatim>\<open>__exit__\<close> returns a true
  value, and an exception of \<^verbatim>\<open>__exit__\<close> itself replaces it.
\<close>

definition node_scope :: "'c collaborators \<Rightarrow> node \<Rightarrow> event list \<times> exc option" where
  "node_scope env n =
     (case node_enter env n of
        Some e \<Rightarrow> ([NodeEnter n (Some e)], Some e)
      | None \<Rightarrow>
          (let body = node_loop env n; x = node_exit env n body;
               evs = [NodeEnter n None, NodeLoop n body, NodeExit n body x]
           in case x of
                Inl e' \<Rightarrow> (evs, Some e')
              | Inr suppress \<Rightarrow> (evs, if suppress then None else body)))"

text \<open>
  \<^verbatim>\<open>_runner\<close> (lines 61-69): the scope inside \<^verbatim>\<open>try\<close>, with \<^verbatim>\<open>except Exception\<close> logging a
  critical record. The result is \<open>Inr ()\<close> when \<^verbatim>\<open>_runner\<close> returns and \<open>Inl e\<close> when \<open>e\<close>
  leaves it.
\<close>

definition runner :: "'c collaborators \<Rightarrow> node \<Rightarrow> event list \<times> (exc + unit)" where
  "runner env n =
     (case node_scope env n of
        (evs, None) \<Rightarrow> (evs, Inr ())
      | (evs, Some e) \<Rightarrow>
          if is_Exception e
          then (evs @ [LogCritical ''Critical error in threadpool node starter.''], Inr ())
          else (evs, Inl e))"

subsection \<open>The starters\<close>

text \<open>
  \<^verbatim>\<open>starter\<close> of \<^verbatim>\<open>ExecutorStrategy.get_starter\<close> (lines 59-76): it submits the runner and
  appends the handle to \<^verbatim>\<open>futures\<close>, inside \<^verbatim>\<open>try\<close> with \<^verbatim>\<open>except Exception\<close>. It has no
  \<^verbatim>\<open>return\<close>, so it returns \<^verbatim>\<open>None\<close>. (\<^verbatim>\<open>functools.wraps(node)\<close> copies the name and
  the documentation of the node onto the closure and calls nothing else.)
\<close>

definition starter :: "'c collaborators \<Rightarrow> executor \<Rightarrow> 'c starter_fn" where
  "starter env ex n w =
     (case executor_submit env ex (Runner n) of
        None \<Rightarrow>
          (Inr None,
           emit [Submit ex (Runner n) None, Append (Future (Runner n))]
             (w\<lparr>futures := futures w @ [Future (Runner n)]\<rparr>))
      | Some e \<Rightarrow>
          if is_Exception e
          then (Inr None, emit [Submit ex (Runner n) (Some e), LogCritical ''futures.append''] w)
          else (Inl e, emit [Submit ex (Runner n) (Some e)] w))"

text \<open>
  \<^verbatim>\<open>loop.run_in_executor(executor, func, *args)\<close> of asyncio: it checks that the loop is
  not closed, submits \<^verbatim>\<open>func(*args)\<close> to the executor and returns the handle wrapped as
  an awaitable.
\<close>

definition run_in_executor ::
  "'c collaborators \<Rightarrow> executor \<Rightarrow> task \<Rightarrow> 'c world \<Rightarrow> (exc + handle option) \<times> 'c world" where
  "run_in_executor env ex t w =
     (case loop_check env of
        Some e \<Rightarrow> (Inl e, emit [CheckLoop (Some e)] w)
      | None \<Rightarrow>
          (case executor_submit env ex t of
             Some e \<Rightarrow> (Inl e, emit [CheckLoop None, Submit ex t (Some e)] w)
           | None \<Rightarrow> (Inr (Some (AsyncFuture t)), emit [CheckLoop None, Submit ex t None] w)))"

text \<open>
  \<^verbatim>\<open>get_starter\<close>: the starter above, but for \<^verbatim>\<open>AsyncThreadPoolExecutorStrategy\<close> (lines
  109-114) \<^verbatim>\<open>functools.partial(self.loop.run_in_executor, executor, starter)\<close>.
\<close>

fun get_starter :: "strategy \<Rightarrow> 'c collaborators \<Rightarrow> executor \<Rightarrow> 'c starter_fn" where
  "get_starter AsyncThreadPoolExecutorStrategy env ex =
     (\<lambda>n. run_in_executor env ex (Starter ex n))"
| "get_starter s env ex = starter env ex"

text \<open>What a worker of the pool does with a unit of work it was given: it calls it.\<close>

fun run_task :: "'c collaborators \<Rightarrow> task \<Rightarrow> 'c world \<Rightarrow> (exc + unit) \<times> 'c world" where
  "run_task env (Runner n) w =
     (case runner env n of (evs, r) \<Rightarrow> (r, emit evs w))"
| "run_task env (Starter ex n) w =
     (case starter env ex n w of
        (Inl e, w') \<Rightarrow> (Inl e, w')
      | (Inr h, w') \<Rightarrow> (Inr (), w'))"

subsection \<open>Creating the executor and the context\<close>

text \<open>\<^verbatim>\<open>executor_factory\<close>, the class attribute; the asynchronous strategy inherits it.\<close>

fun executor_factory :: "strategy \<Rightarrow> factory" where
  "executor_factory ExecutorStrategy = Executor"
| "executor_factory ThreadPoolExecutorStrategy = ThreadPoolExecutor"
| "executor_factory AsyncThreadPoolExecutorStrategy = ThreadPoolExecutor"
| "executor_factory ProcessPoolExecutorStrategy = ProcessPoolExecutor"

definition construct :: "'c collaborators \<Rightarrow> factory \<Rightarrow> nat option \<Rightarrow> event \<times> (exc + executor)" where
  "construct env f mw =
     (case factory_call env f mw of
        Some e \<Rightarrow> (CreateExecutor f mw (Some e), Inl e)
      | None \<Rightarrow> (CreateExecutor f mw None, Inr \<lparr>made_by = f, max_workers = mw\<rparr>))"

text \<open>
  \<^verbatim>\<open>create_executor\<close> (lines 26-27, 84-85, 120-121); the asynchronous strategy inherits the
  method of \<^verbatim>\<open>ThreadPoolExecutorStrategy\<close>.
\<close>

fun create_executor ::
  "strategy \<Rightarrow> 'c collaborators \<Rightarrow> graph \<Rightarrow> event \<times> (exc + executor)" where
  "create_executor ExecutorStrategy env g = construct env (executor_factory ExecutorStrategy) None"
| "create_executor s env g = construct env (executor_factory s) (Some (length g))"

text \<open>
  \<^verbatim>\<open>create_graph_execution_context\<close>: inherited, except that the asynchronous strategy
  (lines 104-107) passes \<^verbatim>\<open>loop=self.loop\<close>, which asks asyncio for the event loop first.
\<close>

definition create_graph_execution_context ::
  "strategy \<Rightarrow> 'c collaborators \<Rightarrow> graph \<Rightarrow> event list \<times> (exc + 'c)" where
  "create_graph_execution_context s env g =
     (let built = (case build_context env s g of
                     Inl e \<Rightarrow> ([CreateContext (Some e)], Inl e)
                   | Inr c \<Rightarrow> ([CreateContext None], Inr c))
      in if s = AsyncThreadPoolExecutorStrategy
         then (case get_event_loop env of
                 Some e \<Rightarrow> ([GetEventLoop (Some e)], Inl e)
               | None \<Rightarrow> (GetEventLoop None # fst built, snd built))
         else built)"

subsection \<open>Starting the context\<close>

text \<open>The context calls the starter once for each node, in order, until one call raises.\<close>

fun offer_all :: "'c starter_fn \<Rightarrow> node list \<Rightarrow> 'c world \<Rightarrow> (exc + unit) \<times> 'c world" where
  "offer_all st [] w = (Inr (), w)"
| "offer_all st (n # ns) w =
     (case st n (emit [Offer n] w) of
        (Inl e, w') \<Rightarrow> (Inl e, w')
      | (Inr h, w') \<Rightarrow> offer_all st ns w')"

text \<open>
  Modelled from the spec: \<^verbatim>\<open>context.start(starter)\<close> belongs to the execution context,
  which is not part of this module. The spec has it invoke the starter callback once
  per node of the graph; around that the context does work of its own, which may fail.
\<close>

definition ctx_start ::
  "'c collaborators \<Rightarrow> graph \<Rightarrow> 'c starter_fn \<Rightarrow> 'c world \<Rightarrow> (exc + unit) \<times> 'c world" where
  "ctx_start env g st w =
     (case ctx_start_begin env (ctx w) of
        (Some e, c) \<Rightarrow> (Inl e, w\<lparr>ctx := c\<rparr>)
      | (None, c) \<Rightarrow>
          (case offer_all st g (w\<lparr>ctx := c\<rparr>) of
             (Inl e, w') \<Rightarrow> (Inl e, w')
           | (Inr u, w') \<Rightarrow>
               (case ctx_start_end env (ctx w') of
                  (Some e, c') \<Rightarrow> (Inl e, w'\<lparr>ctx := c'\<rparr>)
                | (None, c') \<Rightarrow> (Inr (), w'\<lparr>ctx := c'\<rparr>))))"

text \<open>
  Lines 36-42: \<^verbatim>\<open>context.start(self.get_starter(executor, futures))\<close> inside \<^verbatim>\<open>try\<close>, with
  \<^verbatim>\<open>except Exception\<close> logging a critical record. \<open>Inl e\<close>: \<open>e\<close> was not caught.
\<close>

definition start_phase ::
  "strategy \<Rightarrow> 'c collaborators \<Rightarrow> graph \<Rightarrow> executor \<Rightarrow> 'c world \<Rightarrow> (exc + unit) \<times> 'c world" where
  "start_phase s env g ex w =
     (case ctx_start env g (get_starter s env ex) (emit [StartBegin] w) of
        (Inr u, w') \<Rightarrow> (Inr (), emit [StartEnd None] w')
      | (Inl e, w') \<Rightarrow>
          if is_Exception e
          then (Inr (),
                emit [StartEnd (Some e),
                      LogCritical ''Exception caught while starting execution context.''] w')
          else (Inl e, emit [StartEnd (Some e)] w'))"

subsection \<open>The tick loop\<close>

text \<open>
  Lines 44-52. The loop runs for as long as the context is alive, so it is given fuel:
  the number of calls of \<^verbatim>\<open>tick\<close> it may make. \<open>None\<close>: the fuel ran out with the context
  still alive. \<open>Some (Inr ())\<close>: the loop ended, by its condition or by \<^verbatim>\<open>break\<close>.
  \<open>Some (Inl e)\<close>: \<open>e\<close> left the loop.
\<close>

fun tick_loop :: "'c collaborators \<Rightarrow> nat \<Rightarrow> 'c world \<Rightarrow> (exc + unit) option \<times> 'c world" where
  "tick_loop env 0 w =
     (if ctx_alive env (ctx w) then (None, emit [Alive True] w)
      else (Some (Inr ()), emit [Alive False] w))"
| "tick_loop env (Suc k) w =
     (if ctx_alive env (ctx w) then
        (case ctx_tick env (ctx w) of
           (None, c) \<Rightarrow> tick_loop env k (emit [Alive True, Tick None] (w\<lparr>ctx := c\<rparr>))
         | (Some e, c) \<Rightarrow>
             if is_KeyboardInterrupt e then
               (case ctx_kill env c of
                  (None, c') \<Rightarrow>
                    (Some (Inr ()),
                     emit [Alive True, Tick (Some e),
                           LogWarning ''KeyboardInterrupt received. Trying to terminate the nodes gracefully.'',
                           Kill None] (w\<lparr>ctx := c'\<rparr>))
                | (Some e', c') \<Rightarrow>
                    (Some (Inl e'),
                     emit [Alive True, Tick (Some e),
                           LogWarning ''KeyboardInterrupt received. Trying to terminate the nodes gracefully.'',
                           Kill (Some e')] (w\<lparr>ctx := c'\<rparr>)))
             else (Some (Inl e), emit [Alive True, Tick (Some e)] (w\<lparr>ctx := c\<rparr>)))
      else (Some (Inr ()), emit [Alive False] w))"

text \<open>Lines 44-54: the loop, then \<^verbatim>\<open>context.stop()\<close> if the loop ended.\<close>

definition supervise :: "'c collaborators \<Rightarrow> nat \<Rightarrow> 'c world \<Rightarrow> (exc + unit) option \<times> 'c world" where
  "supervise env fuel w =
     (case tick_loop env fuel w of
        (Some (Inr u), w') \<Rightarrow>
          (case ctx_stop env (ctx w') of
             (None, c) \<Rightarrow> (Some (Inr ()), emit [Stop None] (w'\<lparr>ctx := c\<rparr>))
           | (Some e, c) \<Rightarrow> (Some (Inl e), emit [Stop (Some e)] (w'\<lparr>ctx := c\<rparr>)))
      | (r, w') \<Rightarrow> (r, w'))"

subsection \<open>execute\<close>

text \<open>The body of the \<^verbatim>\<open>with\<close> block (lines 36-54).\<close>

definition with_body ::
  "strategy \<Rightarrow> 'c collaborators \<Rightarrow> nat \<Rightarrow> graph \<Rightarrow> executor \<Rightarrow> 'c world \<Rightarrow>
     (exc + unit) option \<times> 'c world" where
  "with_body s env fuel g ex w =
     (case start_phase s env g ex w of
        (Inl e, w') \<Rightarrow> (Some (Inl e), w')
      | (Inr u, w') \<Rightarrow> supervise env fuel w')"

text \<open>
  Leaving the \<^verbatim>\<open>with\<close> block, then \<^verbatim>\<open>return context\<close> (line 56). \<^verbatim>\<open>Executor.__exit__\<close>
  calls \<^verbatim>\<open>shutdown(wait=True)\<close> and returns \<^verbatim>\<open>False\<close>: if the shutdown returns, an exception
  of the block goes on; if it raises, its exception is the one that leaves \<^verbatim>\<open>execute\<close>; if
  the wait never ends, \<^verbatim>\<open>execute\<close> does not return. A block that does not end is not left.
\<close>

fun release ::
  "'c collaborators \<Rightarrow> executor \<Rightarrow> (exc + unit) option \<times> 'c world \<Rightarrow>
     event list \<times> (exc + 'c) option" where
  "release env ex (None, w) = (trace w, None)"
| "release env ex (Some rb, w) =
     (trace w @ [ReleaseExecutor],
      (case executor_shutdown env ex of
         None \<Rightarrow> None
       | Some (Some e') \<Rightarrow> Some (Inl e')
       | Some None \<Rightarrow> Some (case rb of Inl e \<Rightarrow> Inl e | Inr u \<Rightarrow> Inr (ctx w))))"

text \<open>
  \<^verbatim>\<open>ExecutorStrategy.execute\<close> (lines 29-56), inherited by every strategy. The result is
  the record of calls and, unless the fuel ran out or the shutdown of the pool never
  ends, the context returned or the exception raised.
\<close>

definition execute ::
  "strategy \<Rightarrow> 'c collaborators \<Rightarrow> nat \<Rightarrow> graph \<Rightarrow> event list \<times> (exc + 'c) option" where
  "execute s env fuel g =
     (case create_graph_execution_context s env g of
        (evs, Inl e) \<Rightarrow> (evs, Some (Inl e))
      | (evs, Inr c0) \<Rightarrow>
          (case ctx_write env c0 of
             (Some e, c1) \<Rightarrow> (evs @ [Write (Some e)], Some (Inl e))
           | (None, c1) \<Rightarrow>
               (case create_executor s env g of
                  (ev, Inl e) \<Rightarrow> (evs @ [Write None, ev], Some (Inl e))
                | (ev, Inr ex) \<Rightarrow>
                    release env ex
                      (with_body s env fuel g ex
                         \<lparr>ctx = c1, futures = [],
                          trace = evs @ [Write None, ev, EnterExecutor]\<rparr>))))"

subsection \<open>Constructing the asynchronous strategy\<close>

datatype context_type =
    GraphExecutionContext
  | AsyncGraphExecutionContext
  | OtherContextType string

record strategy_object =
  strategy_class :: strategy
  GraphExecutionContextType :: context_type

text \<open>
  Modelled from the spec: \<^verbatim>\<open>Strategy.__init__\<close> is in the base class, outside this
  module; it keeps the context type it is given, or the default of the class, and
  acquires nothing.
\<close>

definition Strategy_init :: "strategy \<Rightarrow> context_type \<Rightarrow> context_type option \<Rightarrow> strategy_object" where
  "Strategy_init cls dflt arg =
     \<lparr>strategy_class = cls,
      GraphExecutionContextType = (case arg of None \<Rightarrow> dflt | Some t \<Rightarrow> t)\<rparr>"

text \<open>
  \<^verbatim>\<open>AsyncThreadPoolExecutorStrategy.__init__\<close> (lines 91-98). \<open>name\<close> is what
  \<^verbatim>\<open>get_name(self)\<close> returns.
\<close>

definition AsyncThreadPoolExecutorStrategy_init ::
  "'c collaborators \<Rightarrow> string \<Rightarrow> context_type option \<Rightarrow> event list \<times> (exc + strategy_object)" where
  "AsyncThreadPoolExecutorStrategy_init env name arg =
     (if \<not> setting_ALPHA env
      then ([GetSetting ''ALPHA'' False],
            Inl (NotImplementedError
                   (name @ '' is experimental, you need to explicitely activate it using ALPHA=True in system env.'')))
      else ([GetSetting ''ALPHA'' True],
            Inr (Strategy_init AsyncThreadPoolExecutorStrategy AsyncGraphExecutionContext arg)))"

subsection \<open>Reading the record of calls\<close>

text \<open>The nodes the context has offered to the starter, in order.\<close>

fun offered :: "event list \<Rightarrow> node list" where
  "offered [] = []"
| "offered (Offer n # es) = n # offered es"
| "offered (e # es) = offered es"

text \<open>The events that the starters write.\<close>

fun starter_event :: "event \<Rightarrow> bool" where
  "starter_event (CheckLoop x) = True"
| "starter_event (Submit ex t x) = True"
| "starter_event (Append h) = True"
| "starter_event (LogCritical m) = True"
| "starter_event e = False"

subsection \<open>Collaborators to run the model on\<close>

text \<open>
  A context that stays alive for as many ticks as the graph has nodes, and
  collaborators that never raise. The state of the context is the number of ticks
  it has left.
\<close>

definition quiet :: "nat collaborators" where
  "quiet =
     \<lparr>build_context = (\<lambda>s g. Inr (length g)),
      get_event_loop = None,
      ctx_write = (\<lambda>c. (None, c)),
      ctx_start_begin = (\<lambda>c. (None, c)),
      ctx_start_end = (\<lambda>c. (None, c)),
      ctx_alive = (\<lambda>c. 0 < c),
      ctx_tick = (\<lambda>c. (None, c - 1)),
      ctx_kill = (\<lambda>c. (None, 0)),
      ctx_stop = (\<lambda>c. (None, 0)),
      factory_call = (\<lambda>f mw. None),
      executor_submit = (\<lambda>ex t. None),
      executor_shutdown = (\<lambda>ex. Some None),
      loop_check = None,
      node_enter = (\<lambda>n. None),
      node_loop = (\<lambda>n. None),
      node_exit = (\<lambda>n body. Inr False),
      setting_ALPHA = True\<rparr>"

text \<open>A pool of two threads.\<close>

definition pool2 :: executor where
  "pool2 = \<lparr>made_by = ThreadPoolExecutor, max_workers = Some 2\<rparr>"

text \<open>The world in which \<^verbatim>\<open>execute\<close> enters its \<^verbatim>\<open>with\<close> block, for a context \<open>c\<close>.\<close>

definition fresh :: "'c \<Rightarrow> 'c world" where
  "fresh c = \<lparr>ctx = c, futures = [], trace = []\<rparr>"

subsection \<open>The shape of a record of calls\<close>

text \<open>
  The predicates below sort the events by the part of \<^verbatim>\<open>execute\<close> that writes them, and
  describe the records that \<^verbatim>\<open>execute\<close> can produce. They are used to state and prove
  the lemmas about the order of calls.
\<close>

text \<open>The events written while the context offers the nodes.\<close>

fun offer_event :: "event \<Rightarrow> bool" where
  "offer_event (Offer n) = True"
| "offer_event e = starter_event e"

text \<open>The events written before \<^verbatim>\<open>context.start\<close> is called.\<close>

fun prologue_event :: "event \<Rightarrow> bool" where
  "prologue_event (GetEventLoop x) = True"
| "prologue_event (CreateContext x) = True"
| "prologue_event (Write x) = True"
| "prologue_event (CreateExecutor f mw x) = True"
| "prologue_event EnterExecutor = True"
| "prologue_event e = False"

text \<open>The events that are not written by lines 44-56.\<close>

fun before_loop :: "event \<Rightarrow> bool" where
  "before_loop (Alive b) = False"
| "before_loop (Tick x) = False"
| "before_loop (LogWarning m) = False"
| "before_loop (Kill x) = False"
| "before_loop (Stop x) = False"
| "before_loop ReleaseExecutor = False"
| "before_loop e = True"

text \<open>\<open>n\<close> rounds of the tick loop in which \<^verbatim>\<open>tick\<close> returns.\<close>

definition ticks :: "nat \<Rightarrow> event list" where
  "ticks n = concat (replicate n [Alive True, Tick None])"

abbreviation "interrupt_warning \<equiv>
  LogWarning ''KeyboardInterrupt received. Trying to terminate the nodes gracefully.''"

abbreviation "start_failure \<equiv>
  LogCritical ''Exception caught while starting execution context.''"

text \<open>
  How the tick loop ends: out of fuel; the context is no longer alive; an interrupt,
  with \<^verbatim>\<open>kill\<close> returning or raising; \<^verbatim>\<open>tick\<close> raising something else.
\<close>

inductive loop_end :: "(exc + unit) option \<Rightarrow> event list \<Rightarrow> bool" where
  "loop_end None [Alive True]"
| "loop_end (Some (Inr ())) [Alive False]"
| "loop_end (Some (Inr ())) [Alive True, Tick (Some KeyboardInterrupt), interrupt_warning, Kill None]"
| "loop_end (Some (Inl e)) [Alive True, Tick (Some KeyboardInterrupt), interrupt_warning, Kill (Some e)]"
| "e \<noteq> KeyboardInterrupt \<Longrightarrow> loop_end (Some (Inl e)) [Alive True, Tick (Some e)]"

text \<open>
  The tick loop, entered with the context in state \<open>c\<close>, ends by its condition or by
  \<^verbatim>\<open>break\<close> after at most \<open>k\<close> calls of \<^verbatim>\<open>tick\<close>.
\<close>

fun settles :: "'c collaborators \<Rightarrow> nat \<Rightarrow> 'c \<Rightarrow> bool" where
  "settles env 0 c = (\<not> ctx_alive env c)"
| "settles env (Suc k) c =
     (if ctx_alive env c then
        (case ctx_tick env c of
           (None, c') \<Rightarrow> settles env k c'
         | (Some e, c') \<Rightarrow> is_KeyboardInterrupt e \<and> fst (ctx_kill env c') = None)
      else True)"

text \<open>
  The same for lines 44-54 and the way out of the \<^verbatim>\<open>with\<close> block: the loop,
  \<^verbatim>\<open>context.stop()\<close> and the call of \<^verbatim>\<open>Executor.__exit__\<close>. The first argument is how the
  block ends.
\<close>

inductive finish :: "(exc + unit) option \<Rightarrow> event list \<Rightarrow> bool" where
  "finish None [Alive True]"
| "finish (Some (Inr ())) [Alive False, Stop None, ReleaseExecutor]"
| "finish (Some (Inl e)) [Alive False, Stop (Some e), ReleaseExecutor]"
| "finish (Some (Inr ()))
     [Alive True, Tick (Some KeyboardInterrupt), interrupt_warning, Kill None, Stop None,
      ReleaseExecutor]"
| "finish (Some (Inl e))
     [Alive True, Tick (Some KeyboardInterrupt), interrupt_warning, Kill None, Stop (Some e),
      ReleaseExecutor]"
| "finish (Some (Inl e))
     [Alive True, Tick (Some KeyboardInterrupt), interrupt_warning, Kill (Some e),
      ReleaseExecutor]"
| "e \<noteq> KeyboardInterrupt \<Longrightarrow>
     finish (Some (Inl e)) [Alive True, Tick (Some e), ReleaseExecutor]"

text \<open>
  The records of \<^verbatim>\<open>execute\<close>: it fails before the \<^verbatim>\<open>with\<close> block; \<^verbatim>\<open>start\<close> raises what
  \<^verbatim>\<open>except Exception\<close> does not catch; \<^verbatim>\<open>start\<close> returns; \<^verbatim>\<open>start\<close> raises what is caught.
  The last argument is how the block ends (before the \<^verbatim>\<open>with\<close> block: how \<^verbatim>\<open>execute\<close>
  ends).
\<close>

inductive execution :: "graph \<Rightarrow> event list \<Rightarrow> (exc + unit) option \<Rightarrow> bool" where
  before_block:
    "list_all prologue_event pro \<Longrightarrow> execution g pro (Some (Inl e))"
| start_escapes:
    "list_all prologue_event pro \<Longrightarrow> list_all offer_event offs \<Longrightarrow> \<not> is_Exception e \<Longrightarrow>
     execution g (pro @ StartBegin # offs @ [StartEnd (Some e), ReleaseExecutor]) (Some (Inl e))"
| started:
    "list_all prologue_event pro \<Longrightarrow> list_all offer_event offs \<Longrightarrow> offered offs = g \<Longrightarrow>
     finish r fin \<Longrightarrow>
     execution g (pro @ StartBegin # offs @ StartEnd None # ticks n @ fin) r"
| start_failed:
    "list_all prologue_event pro \<Longrightarrow> list_all offer_event offs \<Longrightarrow> is_Exception e \<Longrightarrow>
     finish r fin \<Longrightarrow>
     execution g (pro @ StartBegin # offs @ StartEnd (Some e) # start_failure # ticks n @ fin) r"

subsection \<open>More collaborators\<close>

text \<open>Each differs from \<open>quiet\<close> in the calls named.\<close>

definition no_context :: "nat collaborators" where
  "no_context = quiet\<lparr>build_context := (\<lambda>s g. Inl (Exception ''ValueError''))\<rparr>"

definition failing_start :: "nat collaborators" where
  "failing_start = quiet\<lparr>ctx_start_begin := (\<lambda>c. (Some (Exception ''RuntimeError''), c))\<rparr>"

definition exiting_node :: "nat collaborators" where
  "exiting_node = quiet\<lparr>node_loop := (\<lambda>n. Some SystemExit)\<rparr>"




definition failing_tick :: "nat collaborators" where
  "failing_tick = quiet\<lparr>ctx_tick := (\<lambda>c. (Some (Exception ''RuntimeError''), c))\<rparr>"

definition interrupted_submit :: "nat collaborators" where
  "interrupted_submit = quiet\<lparr>executor_submit := (\<lambda>ex t. Some KeyboardInterrupt)\<rparr>"

definition refusing_pool :: "nat collaborators" where
  "refusing_pool =
     quiet\<lparr>executor_submit :=
             (\<lambda>ex t. if t = Runner 1 then Some (Exception ''RuntimeError'') else None)\<rparr>"

definition suppressing_node :: "nat collaborators" where
  "suppressing_node =
     quiet\<lparr>node_loop := (\<lambda>n. Some SystemExit), node_exit := (\<lambda>n body. Inr True)\<rparr>"

definition stuck_pool :: "nat collaborators" where
  "stuck_pool =
     quiet\<lparr>ctx_start_begin := (\<lambda>c. (Some (Exception ''RuntimeError''), c)),
           executor_shutdown := (\<lambda>ex. None)\<rparr>"

definition alpha_off :: "nat collaborators" where
  "alpha_off = quiet\<lparr>setting_ALPHA := False\<rparr>"

definition brief_after_failed_start :: "nat collaborators" where
  "brief_after_failed_start =
     quiet\<lparr>ctx_start_begin := (\<lambda>c. (Some (Exception ''RuntimeError''), c)),
           ctx_tick := (\<lambda>c. (None, 0))\<rparr>"

section \<open>Lemmas\<close>

subsection \<open>Evaluation\<close>

lemmas run_defs =
  execute_def create_graph_execution_context_def construct_def with_body_def start_phase_def
  ctx_start_def starter_def run_in_executor_def supervise_def emit_def quiet_def
  runner_def node_scope_def fresh_def pool2_def Let_def eval_nat_numeral

lemma emit_simps [simp]:
  "trace (emit evs w) = trace w @ evs"
  "ctx (emit evs w) = ctx w"
  "futures (emit evs w) = futures w"
  by (simp_all add: emit_def)

lemma is_KeyboardInterrupt_iff [simp]: "is_KeyboardInterrupt e \<longleftrightarrow> e = KeyboardInterrupt"
  by (cases e) simp_all

subsection \<open>What the starters write\<close>

lemma offered_append [simp]: "offered (xs @ ys) = offered xs @ offered ys"
  by (induction xs rule: offered.induct) simp_all

lemma offered_starter_events: "list_all starter_event evs \<Longrightarrow> offered evs = []"
  by (induction evs rule: offered.induct) simp_all

lemma offered_prologue: "list_all prologue_event xs \<Longrightarrow> offered xs = []"
  by (induction xs rule: offered.induct) simp_all

lemma starter_trace:
  assumes "starter env ex n w = (r, w')"
  shows "\<exists>evs. trace w' = trace w @ evs \<and> list_all starter_event evs"
  using assms by (auto simp: starter_def split: option.splits if_splits)

lemma run_in_executor_trace:
  assumes "run_in_executor env ex t w = (r, w')"
  shows "\<exists>evs. trace w' = trace w @ evs \<and> list_all starter_event evs"
  using assms by (auto simp: run_in_executor_def split: option.splits if_splits)

lemma get_starter_trace:
  assumes "get_starter s env ex n w = (r, w')"
  shows "\<exists>evs. trace w' = trace w @ evs \<and> list_all starter_event evs"
  using assms by (cases s) (auto dest: starter_trace run_in_executor_trace)

lemma offer_all_trace:
  assumes "offer_all (get_starter s env ex) ns w = (r, w')"
  shows "\<exists>evs. trace w' = trace w @ evs \<and> list_all offer_event evs
           \<and> (r = Inr () \<longrightarrow> offered evs = ns)"
  using assms
proof (induction ns arbitrary: w)
  case Nil
  then show ?case by simp
next
  case (Cons n ns)
  obtain r1 w1 where st: "get_starter s env ex n (emit [Offer n] w) = (r1, w1)"
    by (cases "get_starter s env ex n (emit [Offer n] w)")
  from get_starter_trace [OF st] obtain e1 where
    e1: "trace w1 = trace w @ Offer n # e1" "list_all starter_event e1" by auto
  have le1: "list_all offer_event e1" using e1(2) by (induction e1) (auto elim: starter_event.elims)
  show ?case
  proof (cases r1)
    case (Inl e)
    with Cons.prems st have "r = Inl e" "w' = w1" by simp_all
    with e1 le1 show ?thesis by simp
  next
    case (Inr h)
    with Cons.prems st have "offer_all (get_starter s env ex) ns w1 = (r, w')" by simp
    from Cons.IH [OF this] obtain e2 where
      e2: "trace w' = trace w1 @ e2" "list_all offer_event e2" "r = Inr () \<longrightarrow> offered e2 = ns"
      by auto
    have "trace w' = trace w @ (Offer n # e1 @ e2)" using e1 e2 by simp
    moreover have "list_all offer_event (Offer n # e1 @ e2)" using le1 e2 by simp
    moreover have "r = Inr () \<longrightarrow> offered (Offer n # e1 @ e2) = n # ns"
      using e2 e1(2) by (simp add: offered_starter_events)
    ultimately show ?thesis by blast
  qed
qed

lemma ctx_start_trace:
  assumes "ctx_start env g (get_starter s env ex) w = (r, w')"
  shows "\<exists>offs. trace w' = trace w @ offs \<and> list_all offer_event offs
           \<and> (r = Inr () \<longrightarrow> offered offs = g)"
proof -
  obtain x c where b: "ctx_start_begin env (ctx w) = (x, c)"
    by (cases "ctx_start_begin env (ctx w)")
  show ?thesis
  proof (cases x)
    case (Some e)
    with assms b show ?thesis by (auto simp: ctx_start_def)
  next
    case None
    obtain r1 w1 where o: "offer_all (get_starter s env ex) g (w\<lparr>ctx := c\<rparr>) = (r1, w1)"
      by (cases "offer_all (get_starter s env ex) g (w\<lparr>ctx := c\<rparr>)")
    from offer_all_trace [OF o] obtain offs where
      offs: "trace w1 = trace w @ offs" "list_all offer_event offs" "r1 = Inr () \<longrightarrow> offered offs = g"
      by auto
    obtain y c' where e: "ctx_start_end env (ctx w1) = (y, c')"
      by (cases "ctx_start_end env (ctx w1)")
    from assms b None o e have "trace w' = trace w1 \<and> (r = Inr () \<longrightarrow> r1 = Inr ())"
      by (cases r1; cases y) (auto simp: ctx_start_def)
    with offs show ?thesis by auto
  qed
qed

lemma start_phase_shape:
  assumes "start_phase s env g ex w = (r, w')"
  shows "\<exists>offs. list_all offer_event offs \<and>
           ((r = Inr () \<and> offered offs = g \<and> trace w' = trace w @ StartBegin # offs @ [StartEnd None])
          \<or> (\<exists>e. r = Inr () \<and> is_Exception e
                 \<and> trace w' = trace w @ StartBegin # offs @ [StartEnd (Some e), start_failure])
          \<or> (\<exists>e. r = Inl e \<and> \<not> is_Exception e
                 \<and> trace w' = trace w @ StartBegin # offs @ [StartEnd (Some e)]))"
proof -
  obtain r1 w1 where cs: "ctx_start env g (get_starter s env ex) (emit [StartBegin] w) = (r1, w1)"
    by (cases "ctx_start env g (get_starter s env ex) (emit [StartBegin] w)")
  from ctx_start_trace [OF cs] obtain offs where
    offs: "trace w1 = trace w @ StartBegin # offs" "list_all offer_event offs"
          "r1 = Inr () \<longrightarrow> offered offs = g"
    by auto
  show ?thesis
  proof (cases r1)
    case (Inr u)
    with assms cs offs show ?thesis by (auto simp: start_phase_def)
  next
    case (Inl e)
    with assms cs offs show ?thesis
      by (cases "is_Exception e") (auto simp: start_phase_def)
  qed
qed

subsection \<open>What the tick loop writes\<close>

lemma ticks_simps [simp]: "ticks 0 = []" "ticks (Suc n) = Alive True # Tick None # ticks n"
  by (simp_all add: ticks_def)

lemma set_ticks: "set (ticks n) \<subseteq> {Alive True, Tick None}"
  by (induction n) auto

lemma no_ticks:
  "trace w' = trace w @ fin \<Longrightarrow> loop_end r fin \<Longrightarrow>
     \<exists>n fin. trace w' = trace w @ ticks n @ fin \<and> loop_end r fin"
  by (rule exI [of _ 0]) simp

lemma tick_loop_shape:
  "tick_loop env k w = (r, w') \<Longrightarrow> \<exists>n fin. trace w' = trace w @ ticks n @ fin \<and> loop_end r fin"
proof (induction k arbitrary: w)
  case 0
  then show ?case
    by (auto split: if_splits intro!: no_ticks intro: loop_end.intros)
next
  case (Suc k)
  show ?case
  proof (cases "ctx_alive env (ctx w)")
    case False
    with Suc.prems show ?thesis by (auto intro!: no_ticks intro: loop_end.intros)
  next
    case alive: True
    obtain x c where t: "ctx_tick env (ctx w) = (x, c)" by (cases "ctx_tick env (ctx w)")
    show ?thesis
    proof (cases x)
      case None
      with Suc.prems alive t
      have "tick_loop env k (emit [Alive True, Tick None] (w\<lparr>ctx := c\<rparr>)) = (r, w')" by simp
      from Suc.IH [OF this] obtain n fin where
        "trace w' = trace w @ ticks (Suc n) @ fin" "loop_end r fin" by auto
      then show ?thesis by blast
    next
      case (Some e)
      obtain y c' where k: "ctx_kill env c = (y, c')" by (cases "ctx_kill env c")
      from Some Suc.prems alive t k
      have "\<exists>fin. trace w' = trace w @ fin \<and> loop_end r fin"
        by (cases y) (auto split: if_splits intro: loop_end.intros)
      then show ?thesis by (auto intro: no_ticks)
    qed
  qed
qed

lemma supervise_shape:
  assumes "supervise env k w = (r, w')"
  shows "\<exists>n fin. finish r fin \<and>
           trace w' @ (case r of None \<Rightarrow> [] | Some x \<Rightarrow> [ReleaseExecutor]) = trace w @ ticks n @ fin"
proof -
  obtain r0 w0 where tl: "tick_loop env k w = (r0, w0)" by (cases "tick_loop env k w")
  from tick_loop_shape [OF tl] obtain n fin where
    sh: "trace w0 = trace w @ ticks n @ fin" and le: "loop_end r0 fin" by auto
  obtain x c where st: "ctx_stop env (ctx w0) = (x, c)" by (cases "ctx_stop env (ctx w0)")
  from le show ?thesis
  proof cases
    case 1
    with assms tl sh show ?thesis
      by (auto simp: supervise_def intro!: exI [of _ n] intro: finish.intros)
  next
    case 2
    with assms tl sh st show ?thesis
      by (cases x) (auto simp: supervise_def intro!: exI [of _ n] intro: finish.intros)
  next
    case 3
    with assms tl sh st show ?thesis
      by (cases x) (auto simp: supervise_def intro!: exI [of _ n] intro: finish.intros)
  next
    case (4 e)
    with assms tl sh show ?thesis
      by (auto simp: supervise_def intro!: exI [of _ n] intro: finish.intros)
  next
    case (5 e)
    with assms tl sh show ?thesis
      by (auto simp: supervise_def intro!: exI [of _ n] intro: finish.intros)
  qed
qed

subsection \<open>The record of execute\<close>

lemma release_trace:
  "fst (release env ex (rb, w)) = trace w @ (case rb of None \<Rightarrow> [] | Some x \<Rightarrow> [ReleaseExecutor])"
  by (cases rb) simp_all

lemma release_returns:
  "(\<exists>c. snd (release env ex (rb, w)) = Some (Inr c))
     \<longleftrightarrow> rb = Some (Inr ()) \<and> executor_shutdown env ex = Some None"
  by (cases rb) (auto split: option.splits sum.splits)

lemma body_shape:
  assumes pro: "list_all prologue_event (trace w)"
    and wb: "with_body s env k g ex w = (rb, w')"
  shows "execution g (trace w' @ (case rb of None \<Rightarrow> [] | Some x \<Rightarrow> [ReleaseExecutor])) rb"
proof -
  obtain r1 w1 where sp: "start_phase s env g ex w = (r1, w1)"
    by (cases "start_phase s env g ex w")
  from start_phase_shape [OF sp] obtain offs where lo: "list_all offer_event offs" and
    cases3: "(r1 = Inr () \<and> offered offs = g \<and> trace w1 = trace w @ StartBegin # offs @ [StartEnd None])
          \<or> (\<exists>e. r1 = Inr () \<and> is_Exception e
                 \<and> trace w1 = trace w @ StartBegin # offs @ [StartEnd (Some e), start_failure])
          \<or> (\<exists>e. r1 = Inl e \<and> \<not> is_Exception e
                 \<and> trace w1 = trace w @ StartBegin # offs @ [StartEnd (Some e)])"
    by blast
  show ?thesis
  proof (cases r1)
    case (Inl e)
    with cases3 have ne: "\<not> is_Exception e"
      and t1: "trace w1 = trace w @ StartBegin # offs @ [StartEnd (Some e)]" by auto
    from Inl sp wb have "rb = Some (Inl e)" "w' = w1" by (auto simp: with_body_def)
    with t1 execution.start_escapes [OF pro lo ne, of g] show ?thesis by simp
  next
    case (Inr u)
    with sp wb have sv: "supervise env k w1 = (rb, w')" by (simp add: with_body_def)
    from supervise_shape [OF sv] obtain n fin where fin: "finish rb fin" and
      t2: "trace w' @ (case rb of None \<Rightarrow> [] | Some x \<Rightarrow> [ReleaseExecutor]) = trace w1 @ ticks n @ fin"
      by blast
    from Inr cases3 consider
      (ok) "offered offs = g" "trace w1 = trace w @ StartBegin # offs @ [StartEnd None]"
      | (failed) e where "is_Exception e"
          "trace w1 = trace w @ StartBegin # offs @ [StartEnd (Some e), start_failure]"
      by auto
    then show ?thesis
    proof cases
      case ok
      with t2 execution.started [OF pro lo ok(1) fin, of n] show ?thesis by simp
    next
      case failed
      with t2 execution.start_failed [OF pro lo failed(1) fin, of g n] show ?thesis by simp
    qed
  qed
qed

lemma block_shape:
  assumes pro: "list_all prologue_event (trace w)"
    and rel: "release env ex (with_body s env k g ex w) = (tr, r)"
  shows "\<exists>rb. execution g tr rb
           \<and> ((\<exists>c. r = Some (Inr c)) \<longleftrightarrow> rb = Some (Inr ()) \<and> executor_shutdown env ex = Some None)"
proof -
  obtain rb w' where wb: "with_body s env k g ex w = (rb, w')"
    by (cases "with_body s env k g ex w")
  from rel wb have "tr = fst (release env ex (rb, w'))" "r = snd (release env ex (rb, w'))"
    by simp_all
  with body_shape [OF pro wb] release_trace [of env ex rb w'] release_returns [of env ex rb w']
  show ?thesis by auto
qed

lemma construct_event: "construct env f mw = (ev, x) \<Longrightarrow> prologue_event ev"
  by (auto simp: construct_def split: option.splits)

lemma create_executor_event: "create_executor s env g = (ev, x) \<Longrightarrow> prologue_event ev"
  by (cases s) (auto dest: construct_event)

lemma create_context_events:
  "create_graph_execution_context s env g = (evs, x) \<Longrightarrow> list_all prologue_event evs"
  by (auto simp: create_graph_execution_context_def Let_def split: sum.splits option.splits if_splits)

lemma execute_shape:
  assumes "execute s env k g = (tr, r)"
  shows "\<exists>rb. execution g tr rb
           \<and> ((\<exists>c. r = Some (Inr c)) \<longleftrightarrow>
                rb = Some (Inr ())
                \<and> (\<exists>ex. snd (create_executor s env g) = Inr ex
                        \<and> executor_shutdown env ex = Some None))"
proof -
  obtain evs x where cc: "create_graph_execution_context s env g = (evs, x)"
    by (cases "create_graph_execution_context s env g")
  note p0 = create_context_events [OF cc]
  have early: ?thesis if "r = Some (Inl e)" "list_all prologue_event tr" for e
  proof -
    from that have "execution g tr (Some (Inl e))" by (auto intro: execution.before_block)
    with that(1) show ?thesis by (intro exI [of _ "Some (Inl e)"]) simp
  qed
  show ?thesis
  proof (cases x)
    case (Inl e)
    with assms cc have "r = Some (Inl e)" "tr = evs" by (simp_all add: execute_def)
    with p0 early [of e] show ?thesis by blast
  next
    case (Inr c0)
    obtain y c1 where wr: "ctx_write env c0 = (y, c1)" by (cases "ctx_write env c0")
    show ?thesis
    proof (cases y)
      case (Some e)
      with assms cc Inr wr have "r = Some (Inl e)" "tr = evs @ [Write (Some e)]"
        by (simp_all add: execute_def)
      moreover from p0 have "list_all prologue_event (evs @ [Write (Some e)])" by simp
      ultimately show ?thesis using early [of e] by blast
    next
      case None
      obtain ev z where ce: "create_executor s env g = (ev, z)"
        by (cases "create_executor s env g")
      note p1 = create_executor_event [OF ce]
      show ?thesis
      proof (cases z)
        case (Inl e)
        with assms cc \<open>x = Inr c0\<close> wr None ce have "r = Some (Inl e)" "tr = evs @ [Write None, ev]"
          by (simp_all add: execute_def)
        moreover from p0 p1 have "list_all prologue_event (evs @ [Write None, ev])" by simp
        ultimately show ?thesis using early [of e] by blast
      next
        case (Inr ex)
        let ?w = "\<lparr>ctx = c1, futures = [], trace = evs @ [Write None, ev, EnterExecutor]\<rparr>"
        from assms cc \<open>x = Inr c0\<close> wr None ce Inr
        have rel: "release env ex (with_body s env k g ex ?w) = (tr, r)" by (simp add: execute_def)
        have "list_all prologue_event (trace ?w)" using p0 p1 by simp
        from block_shape [OF this rel] ce Inr show ?thesis by simp
      qed
    qed
  qed
qed

lemma prologue_before_loop: "prologue_event e \<Longrightarrow> before_loop e"
  by (cases e) simp_all

lemma offer_before_loop: "offer_event e \<Longrightarrow> before_loop e"
  by (cases e) simp_all

lemma before_loop_set: "list_all before_loop xs \<Longrightarrow> e \<in> set xs \<Longrightarrow> before_loop e"
  by (simp add: list_all_iff)

lemma execution_split:
  assumes "execution g tr r"
  shows "(list_all before_loop tr \<and> (\<exists>e. r = Some (Inl e)))
       \<or> (\<exists>head. tr = head @ [ReleaseExecutor] \<and> list_all before_loop head \<and> (\<exists>e. r = Some (Inl e)))
       \<or> (\<exists>head n fin. tr = head @ ticks n @ fin \<and> list_all before_loop head \<and> finish r fin)"
  using assms
proof cases
  case (before_block e)
  then have "list_all before_loop tr"
    by (auto simp: list_all_iff dest: prologue_before_loop)
  with before_block show ?thesis by simp
next
  case (start_escapes pro offs e)
  have "list_all before_loop (pro @ StartBegin # offs @ [StartEnd (Some e)])"
    using start_escapes(3,4)
    by (auto simp: list_all_iff dest: prologue_before_loop offer_before_loop)
  with start_escapes(1,2) show ?thesis by auto
next
  case (started pro offs fin n)
  have "list_all before_loop (pro @ StartBegin # offs @ [StartEnd None])"
    using started(2,3)
    by (auto simp: list_all_iff dest: prologue_before_loop offer_before_loop)
  moreover have "tr = (pro @ StartBegin # offs @ [StartEnd None]) @ ticks n @ fin"
    using started(1) by simp
  ultimately show ?thesis using started(5) by blast
next
  case (start_failed pro offs e fin n)
  have "list_all before_loop (pro @ StartBegin # offs @ [StartEnd (Some e), start_failure])"
    using start_failed(2,3)
    by (auto simp: list_all_iff dest: prologue_before_loop offer_before_loop)
  moreover have "tr = (pro @ StartBegin # offs @ [StartEnd (Some e), start_failure]) @ ticks n @ fin"
    using start_failed(1) by simp
  ultimately show ?thesis using start_failed(5) by blast
qed

lemma not_before_loop:
  assumes "list_all before_loop xs"
  shows "Stop x \<notin> set xs" "Alive b \<notin> set xs" "Kill x \<notin> set xs" "ReleaseExecutor \<notin> set xs"
    "Tick x \<notin> set xs"
  using assms by (auto dest: before_loop_set)

lemma not_ticks:
  "Stop x \<notin> set (ticks n)" "Alive False \<notin> set (ticks n)" "Kill x \<notin> set (ticks n)"
  "ReleaseExecutor \<notin> set (ticks n)" "StartEnd y \<notin> set (ticks n)"
  using set_ticks [of n] by auto

lemma offered_offers: "list_all offer_event xs \<Longrightarrow> Tick y \<notin> set xs \<and> StartEnd z \<notin> set xs"
  by (auto simp: list_all_iff)

lemma prologue_quiet:
  "list_all prologue_event xs \<Longrightarrow> Tick y \<notin> set xs \<and> StartEnd z \<notin> set xs"
  by (auto simp: list_all_iff)

lemma finish_no_start: "finish r fin \<Longrightarrow> StartEnd z \<notin> set fin"
  by (erule finish.cases) simp_all

lemma loop_begins: "finish r fin \<Longrightarrow> \<exists>b post. ticks n @ fin = Alive b # post"
  by (erule finish.cases; cases n; auto)

lemma finish_stop:
  assumes "finish r fin"
  shows "((\<exists>x. Stop x \<in> set fin) \<longleftrightarrow> (Alive False \<in> set fin \<or> Kill None \<in> set fin))
       \<and> (Stop None \<in> set fin \<longleftrightarrow> r = Some (Inr ()))
       \<and> (\<forall>x. Stop x \<in> set fin \<longrightarrow>
            (\<exists>p. fin = p @ [Stop x, ReleaseExecutor] \<and> (\<forall>y. Stop y \<notin> set p) \<and> ReleaseExecutor \<notin> set p))"
  using assms
proof cases
  case 1
  then show ?thesis by simp
next
  case 2
  have "fin = [Alive False] @ [Stop None, ReleaseExecutor]" using 2 by simp
  with 2 show ?thesis by (intro conjI allI impI exI [of _ "[Alive False]"]) auto
next
  case (3 e)
  with 3 show ?thesis by (intro conjI allI impI exI [of _ "[Alive False]"]) auto
next
  case 4
  then show ?thesis
    by (intro conjI allI impI
          exI [of _ "[Alive True, Tick (Some KeyboardInterrupt), interrupt_warning, Kill None]"]) auto
next
  case (5 e)
  then show ?thesis
    by (intro conjI allI impI
          exI [of _ "[Alive True, Tick (Some KeyboardInterrupt), interrupt_warning, Kill None]"]) auto
next
  case (6 e)
  then show ?thesis by simp
next
  case (7 e)
  then show ?thesis by simp
qed

lemma finish_raised:
  assumes "finish r fin"
  shows "(Tick (Some e) \<in> set fin \<and> e \<noteq> KeyboardInterrupt \<longrightarrow>
            fin = [Alive True, Tick (Some e), ReleaseExecutor])
       \<and> (Kill (Some e) \<in> set fin \<longrightarrow>
            fin = [Alive True, Tick (Some KeyboardInterrupt), interrupt_warning, Kill (Some e),
                   ReleaseExecutor])"
  using assms by cases auto

lemma start_event_unique:
  assumes "list_all prologue_event pro" and "list_all offer_event offs" and "finish rb fin"
    and "StartEnd x \<in> set (pro @ StartBegin # offs @ StartEnd y # logs @ ticks n @ fin)"
    and "\<forall>z. StartEnd z \<notin> set logs"
  shows "x = y"
proof -
  have "StartEnd x \<notin> set pro" "StartEnd x \<notin> set offs"
    using assms(1,2) by (auto simp: list_all_iff)
  moreover have "StartEnd x \<notin> set fin" using assms(3) by cases simp_all
  moreover have "StartEnd x \<notin> set (ticks n)" using set_ticks [of n] by auto
  ultimately show ?thesis using assms(4,5) by auto
qed

lemma before_loop_no_stop:
  assumes "list_all before_loop xs"
  shows "\<forall>y. Stop y \<notin> set xs"
  using assms by (auto dest: before_loop_set)

lemma execute_returns_iff:
  assumes "execute s env fuel g = (tr, r)"
  shows "(\<exists>c. r = Some (Inr c)) \<longleftrightarrow>
           Stop None \<in> set tr
           \<and> (\<exists>ex. snd (create_executor s env g) = Inr ex \<and> executor_shutdown env ex = Some None)"
proof -
  from execute_shape [OF assms] obtain rb where c:
    "execution g tr rb
     \<and> ((\<exists>c. r = Some (Inr c)) \<longleftrightarrow>
                rb = Some (Inr ())
                \<and> (\<exists>ex. snd (create_executor s env g) = Inr ex
                        \<and> executor_shutdown env ex = Some None))" ..
  from c have ex: "execution g tr rb" by (rule conjunct1)
  from c have r: "(\<exists>c. r = Some (Inr c)) \<longleftrightarrow>
                rb = Some (Inr ())
                \<and> (\<exists>ex. snd (create_executor s env g) = Inr ex
                        \<and> executor_shutdown env ex = Some None)" by (rule conjunct2)
  from execution_split [OF ex] consider
    (early) e where "list_all before_loop tr" "rb = Some (Inl e)"
    | (escaped) head e where "tr = head @ [ReleaseExecutor]" "list_all before_loop head"
        "rb = Some (Inl e)"
    | (looped) head n fin where "tr = head @ ticks n @ fin" "list_all before_loop head"
        "finish rb fin"
    by auto
  then have "Stop None \<in> set tr \<longleftrightarrow> rb = Some (Inr ())"
  proof cases
    case early
    then show ?thesis by (simp add: not_before_loop)
  next
    case escaped
    then show ?thesis by (simp add: not_before_loop)
  next
    case looped
    with finish_stop [OF looped(3)] show ?thesis by (simp add: not_before_loop not_ticks)
  qed
  then have "(rb = Some (Inr ())
                \<and> (\<exists>ex. snd (create_executor s env g) = Inr ex
                        \<and> executor_shutdown env ex = Some None))
          \<longleftrightarrow> (Stop None \<in> set tr
           \<and> (\<exists>ex. snd (create_executor s env g) = Inr ex \<and> executor_shutdown env ex = Some None))"
    by (rule arg_cong [where f = "\<lambda>p. p \<and> _", OF sym])
  with r show ?thesis by (rule trans)
qed

lemma no_alive:
  "list_all prologue_event xs \<Longrightarrow> Alive b \<notin> set xs"
  "list_all offer_event xs \<Longrightarrow> Alive b \<notin> set xs"
  by (induction xs) auto

lemma tick_loop_settles:
  "settles env k (ctx w) \<Longrightarrow> \<exists>w'. tick_loop env k w = (Some (Inr ()), w')"
proof (induction k arbitrary: w)
  case 0
  then show ?case by simp
next
  case (Suc k)
  show ?case
  proof (cases "ctx_alive env (ctx w)")
    case False
    then show ?thesis by simp
  next
    case True
    obtain x c where t: "ctx_tick env (ctx w) = (x, c)" by (cases "ctx_tick env (ctx w)")
    show ?thesis
    proof (cases x)
      case None
      with Suc.prems True t have "settles env k (ctx (emit [Alive True, Tick None] (w\<lparr>ctx := c\<rparr>)))"
        by simp
      from Suc.IH [OF this] True t None show ?thesis by simp
    next
      case (Some e)
      obtain y c' where k: "ctx_kill env c = (y, c')" by (cases "ctx_kill env c")
      with Suc.prems True t Some show ?thesis by simp
    qed
  qed
qed

lemma supervise_returns:
  assumes "settles env k (ctx w)" and "\<forall>c. fst (ctx_stop env c) = None"
  shows "\<exists>w'. supervise env k w = (Some (Inr ()), w')"
proof -
  from tick_loop_settles [OF assms(1)] obtain w1 where
    t: "tick_loop env k w = (Some (Inr ()), w1)" by blast
  obtain x c where s: "ctx_stop env (ctx w1) = (x, c)" by (cases "ctx_stop env (ctx w1)")
  with assms(2) have "x = None" by (metis fst_conv)
  with t s show ?thesis by (simp add: supervise_def)
qed

lemma block_supervised:
  assumes "release env ex (with_body s env k g ex w) = (tr, r)" and "Alive b \<in> set tr"
    and "list_all prologue_event (trace w)"
  shows "\<exists>w1 ex. release env ex (supervise env k w1) = (tr, r)"
proof -
  obtain r1 w1 where sp: "start_phase s env g ex w = (r1, w1)"
    by (cases "start_phase s env g ex w")
  show ?thesis
  proof (cases r1)
    case (Inr u)
    with sp assms(1) show ?thesis by (auto simp: with_body_def)
  next
    case (Inl e)
    with sp assms(1) have tr: "tr = trace w1 @ [ReleaseExecutor]" by (simp add: with_body_def)
    from start_phase_shape [OF sp] Inl obtain offs where
      "list_all offer_event offs" "trace w1 = trace w @ StartBegin # offs @ [StartEnd (Some e)]"
      by auto
    with tr assms(2,3) have False by (simp add: no_alive)
    then show ?thesis ..
  qed
qed

lemma execute_supervised:
  assumes "execute s env k g = (tr, r)" and "Alive b \<in> set tr"
  shows "\<exists>w1 ex. release env ex (supervise env k w1) = (tr, r)"
proof -
  obtain evs x where cc: "create_graph_execution_context s env g = (evs, x)"
    by (cases "create_graph_execution_context s env g")
  note p0 = create_context_events [OF cc]
  show ?thesis
  proof (cases x)
    case (Inl e)
    with assms cc p0 show ?thesis by (auto simp: execute_def no_alive)
  next
    case (Inr c0)
    obtain y c1 where wr: "ctx_write env c0 = (y, c1)" by (cases "ctx_write env c0")
    show ?thesis
    proof (cases y)
      case (Some e)
      with assms cc Inr wr p0 show ?thesis by (auto simp: execute_def no_alive)
    next
      case None
      obtain ev z where ce: "create_executor s env g = (ev, z)"
        by (cases "create_executor s env g")
      note p1 = create_executor_event [OF ce]
      show ?thesis
      proof (cases z)
        case (Inl e)
        with assms cc \<open>x = Inr c0\<close> wr None ce p0 p1 show ?thesis
          by (auto simp: execute_def no_alive)
      next
        case (Inr ex)
        let ?w = "\<lparr>ctx = c1, futures = [], trace = evs @ [Write None, ev, EnterExecutor]\<rparr>"
        from assms(1) cc \<open>x = Inr c0\<close> wr None ce Inr
        have "release env ex (with_body s env k g ex ?w) = (tr, r)" by (simp add: execute_def)
        moreover have "list_all prologue_event (trace ?w)" using p0 p1 by simp
        ultimately show ?thesis using assms(2) by (blast intro: block_supervised)
      qed
    qed
  qed
qed

lemma execute_returns:
  assumes "execute s env k g = (tr, r)" and "Alive b \<in> set tr"
    and "\<forall>c. settles env k c" and "\<forall>c. fst (ctx_stop env c) = None"
    and "\<forall>x. executor_shutdown env x = Some None"
  shows "\<exists>c. r = Some (Inr c)"
proof -
  from execute_supervised [OF assms(1,2)] obtain w1 ex where
    rel: "release env ex (supervise env k w1) = (tr, r)" by blast
  from assms(3) have "settles env k (ctx w1)" by blast
  from supervise_returns [OF this assms(4)] obtain w' where
    "supervise env k w1 = (Some (Inr ()), w')" by blast
  with rel assms(5) show ?thesis by auto
qed

subsection \<open>Submission failures\<close>

lemma starter_contains:
  assumes "executor_submit env ex (Runner m) = Some e" and "is_Exception e"
  shows "starter env ex m w =
           (Inr None, emit [Submit ex (Runner m) (Some e), LogCritical ''futures.append''] w)"
  using assms by (simp add: starter_def)

lemma starter_returns:
  assumes "\<forall>e. executor_submit env ex (Runner m) = Some e \<longrightarrow> is_Exception e"
  shows "\<exists>w'. starter env ex m w = (Inr None, w') \<and> offered (trace w') = offered (trace w)"
  using assms by (cases "executor_submit env ex (Runner m)") (auto simp: starter_def)

lemma offer_all_contained:
  assumes "\<forall>m\<in>set ns. \<forall>e. executor_submit env ex (Runner m) = Some e \<longrightarrow> is_Exception e"
  shows "\<exists>w'. offer_all (starter env ex) ns w = (Inr (), w')
             \<and> offered (trace w') = offered (trace w) @ ns"
  using assms
proof (induction ns arbitrary: w)
  case Nil
  then show ?case by simp
next
  case (Cons m ns)
  then have "\<forall>e. executor_submit env ex (Runner m) = Some e \<longrightarrow> is_Exception e" by simp
  from starter_returns [OF this, of "emit [Offer m] w"] obtain w1 where
    w1: "starter env ex m (emit [Offer m] w) = (Inr None, w1)"
        "offered (trace w1) = offered (trace w) @ [m]" by auto
  from Cons.prems have "\<forall>m\<in>set ns. \<forall>e. executor_submit env ex (Runner m) = Some e \<longrightarrow> is_Exception e"
    by simp
  from Cons.IH [OF this, of w1] obtain w' where
    "offer_all (starter env ex) ns w1 = (Inr (), w')"
    "offered (trace w') = offered (trace w1) @ ns" by blast
  with w1 show ?case by simp
qed

section \<open>The claims\<close>

subsection \<open>C1: a failure of start is logged and the run goes on\<close>

text \<open>
  Claim C1, as the code has it. If \<^verbatim>\<open>context.start\<close> raises an exception derived from
  \<^verbatim>\<open>Exception\<close>, \<^verbatim>\<open>execute\<close> logs it as critical and goes on to the tick loop: the next
  thing it does is read \<^verbatim>\<open>context.alive\<close>. The failure of start does not abort the call:
  \<^verbatim>\<open>execute\<close> returns the context exactly when \<^verbatim>\<open>context.stop()\<close> has been called and has
  returned and the shutdown of the pool, on the way out of the \<^verbatim>\<open>with\<close> block, returns;
  and it does return it when the tick loop ends within the fuel and neither
  \<^verbatim>\<open>context.stop()\<close> nor the shutdown raises or hangs.
\<close>

theorem start_failure_logged_then_loop:
  assumes "execute s env fuel g = (tr, r)"
    and "StartEnd (Some e) \<in> set tr" and "is_Exception e"
  shows "(\<exists>pre b post.
            tr = pre @ [StartEnd (Some e),
                        LogCritical ''Exception caught while starting execution context.'',
                        Alive b] @ post)
       \<and> ((\<exists>c. r = Some (Inr c)) \<longleftrightarrow>
            Stop None \<in> set tr
            \<and> (\<exists>ex. snd (create_executor s env g) = Inr ex
                    \<and> executor_shutdown env ex = Some None))
       \<and> ((\<forall>c. settles env fuel c) \<and> (\<forall>c. fst (ctx_stop env c) = None)
            \<and> (\<forall>x. executor_shutdown env x = Some None) \<longrightarrow>
            (\<exists>c. r = Some (Inr c)))"
proof -
  have logged: "\<exists>pre b post.
            tr = pre @ [StartEnd (Some e),
                        LogCritical ''Exception caught while starting execution context.'',
                        Alive b] @ post"
  proof -
    from execute_shape [OF assms(1)] obtain rb where "execution g tr rb" by blast
    then show ?thesis
  proof cases
    case (before_block e0)
    with assms(2) show ?thesis by (simp add: prologue_quiet)
  next
    case (start_escapes pro offs e')
    with assms(2,3) show ?thesis by (auto simp: prologue_quiet offered_offers)
  next
    case (started pro offs fin n)
    with assms(2) show ?thesis
      by (simp add: prologue_quiet offered_offers not_ticks finish_no_start)
  next
    case (start_failed pro offs e' fin n)
    with assms(2) have "e' = e"
      by (simp add: prologue_quiet offered_offers not_ticks finish_no_start)
    from loop_begins [OF start_failed(5), of n] obtain b post where
      "ticks n @ fin = Alive b # post" by blast
    with start_failed(1) \<open>e' = e\<close>
    have "tr = (pro @ StartBegin # offs) @ [StartEnd (Some e), start_failure, Alive b] @ post"
      by simp
    then show ?thesis by blast
  qed
  qed
  then obtain pre b post where "tr = pre @ [StartEnd (Some e),
                        LogCritical ''Exception caught while starting execution context.'',
                        Alive b] @ post" by blast
  then have "Alive b \<in> set tr" by simp
  from execute_returns [OF assms(1) this]
  have returns: "(\<forall>c. settles env fuel c) \<and> (\<forall>c. fst (ctx_stop env c) = None)
            \<and> (\<forall>x. executor_shutdown env x = Some None) \<longrightarrow>
            (\<exists>c. r = Some (Inr c))" by (intro impI) (elim conjE)
  from logged execute_returns_iff [OF assms(1)] returns show ?thesis by (intro conjI)
qed

theorem start_failure_logged_then_loop_witness:
  "StartEnd (Some (Exception ''RuntimeError''))
     \<in> set (fst (execute ThreadPoolExecutorStrategy brief_after_failed_start 5 [1]))
   \<and> is_Exception (Exception ''RuntimeError'')
   \<and> (\<forall>c. settles brief_after_failed_start 5 c)
   \<and> (\<forall>c. fst (ctx_stop brief_after_failed_start c) = None)
   \<and> (\<forall>x. executor_shutdown brief_after_failed_start x = Some None)
   \<and> (\<exists>pre b post.
         fst (execute ThreadPoolExecutorStrategy brief_after_failed_start 5 [1]) =
           pre @ [StartEnd (Some (Exception ''RuntimeError'')),
                  LogCritical ''Exception caught while starting execution context.'',
                  Alive b] @ post)
   \<and> (\<exists>c. snd (execute ThreadPoolExecutorStrategy brief_after_failed_start 5 [1]) = Some (Inr c))
   \<and> Stop None \<in> set (fst (execute ThreadPoolExecutorStrategy brief_after_failed_start 5 [1]))"
proof -
  let ?tr = "[CreateContext None, Write None, CreateExecutor ThreadPoolExecutor (Some 1) None,
       EnterExecutor, StartBegin, StartEnd (Some (Exception ''RuntimeError'')),
       LogCritical ''Exception caught while starting execution context.'',
       Alive True, Tick None, Alive False, Stop None, ReleaseExecutor]"
  have run: "execute ThreadPoolExecutorStrategy brief_after_failed_start 5 [1] = (?tr, Some (Inr 0))"
    by (simp add: run_defs brief_after_failed_start_def)
  have m: "StartEnd (Some (Exception ''RuntimeError'')) \<in> set ?tr" by simp
  have x: "is_Exception (Exception ''RuntimeError'')" by simp
  have s: "\<forall>c. settles brief_after_failed_start 5 c"
    by (simp add: brief_after_failed_start_def quiet_def eval_nat_numeral)
  have t: "\<forall>c. fst (ctx_stop brief_after_failed_start c) = None"
    by (simp add: brief_after_failed_start_def quiet_def)
  have u: "\<forall>x. executor_shutdown brief_after_failed_start x = Some None"
    by (simp add: brief_after_failed_start_def quiet_def)
  note c = start_failure_logged_then_loop [OF run m x]
  from c have c1: "\<exists>pre b post. ?tr =
           pre @ [StartEnd (Some (Exception ''RuntimeError'')),
                  LogCritical ''Exception caught while starting execution context.'',
                  Alive b] @ post" by blast
  from c s t u have c2: "\<exists>c. Some (Inr 0) = Some (Inr (c::nat))" by blast
  from c c2 have c3: "Stop None \<in> set ?tr" by blast
  from m x s t u c1 c2 c3 show ?thesis unfolding run fst_conv snd_conv by (intro conjI)
qed

text \<open>
  The claim also speaks of building the context. That happens on line 30, outside the
  \<^verbatim>\<open>try\<close>: an exception raised there leaves \<^verbatim>\<open>execute\<close>, nothing is logged and there is
  no tick loop.
\<close>

theorem build_failure_propagates:
  "execute ExecutorStrategy no_context 5 [1] =
     ([CreateContext (Some (Exception ''ValueError''))], Some (Inl (Exception ''ValueError'')))"
  by (simp add: run_defs no_context_def)

text \<open>
  A pool whose shutdown never ends: the start fails, the loop ends and \<^verbatim>\<open>stop()\<close>
  returns, but \<^verbatim>\<open>execute\<close> does not return.
\<close>

lemma stuck_pool_run:
  "execute ThreadPoolExecutorStrategy stuck_pool 5 [1] =
     ([CreateContext None, Write None, CreateExecutor ThreadPoolExecutor (Some 1) None,
       EnterExecutor, StartBegin, StartEnd (Some (Exception ''RuntimeError'')),
       LogCritical ''Exception caught while starting execution context.'',
       Alive True, Tick None, Alive False, Stop None, ReleaseExecutor],
      None)"
  by (simp add: run_defs stuck_pool_def)

subsection \<open>C2: the runner releases the scope and contains failures\<close>




subsection \<open>C3: an interrupt during the tick loop\<close>




subsection \<open>C4: stop is called when the tick loop ends\<close>

text \<open>
  Claim C4, as the code has it. \<^verbatim>\<open>context.stop()\<close> is called exactly when the tick loop
  has ended: the context has reported that it is not alive, or \<^verbatim>\<open>kill()\<close> has returned
  after an interrupt. Whether start failed plays no part. It is then called once, and
  the release of the pool is the next and last thing that happens. When \<^verbatim>\<open>tick()\<close>
  raises anything but \<^verbatim>\<open>KeyboardInterrupt\<close>, when \<^verbatim>\<open>kill()\<close> raises, and when start raises
  what is not derived from \<^verbatim>\<open>Exception\<close>, the release of the pool is the next and last
  thing that happens and \<^verbatim>\<open>stop()\<close> is not called.
\<close>

theorem stop_when_loop_ends:
  assumes "execute s env fuel g = (tr, r)"
  shows "((\<exists>x. Stop x \<in> set tr) \<longleftrightarrow> (Alive False \<in> set tr \<or> Kill None \<in> set tr))
       \<and> (\<forall>x. Stop x \<in> set tr \<longrightarrow>
            (\<exists>pre. tr = pre @ [Stop x, ReleaseExecutor]
                 \<and> (\<forall>y. Stop y \<notin> set pre) \<and> ReleaseExecutor \<notin> set pre))
       \<and> (\<forall>e. Tick (Some e) \<in> set tr \<and> e \<noteq> KeyboardInterrupt \<longrightarrow>
            (\<exists>pre. tr = pre @ [Tick (Some e), ReleaseExecutor]
                 \<and> (\<forall>y. Stop y \<notin> set pre) \<and> ReleaseExecutor \<notin> set pre))
       \<and> (\<forall>e. Kill (Some e) \<in> set tr \<longrightarrow>
            (\<exists>pre. tr = pre @ [Kill (Some e), ReleaseExecutor]
                 \<and> (\<forall>y. Stop y \<notin> set pre) \<and> ReleaseExecutor \<notin> set pre))
       \<and> (\<forall>e. StartEnd (Some e) \<in> set tr \<and> \<not> is_Exception e \<longrightarrow>
            (\<exists>pre. tr = pre @ [StartEnd (Some e), ReleaseExecutor]
                 \<and> (\<forall>y. Stop y \<notin> set pre) \<and> ReleaseExecutor \<notin> set pre))"
proof -
  from execute_shape [OF assms] obtain rb where ex: "execution g tr rb" by blast
  have stops: "((\<exists>x. Stop x \<in> set tr) \<longleftrightarrow> (Alive False \<in> set tr \<or> Kill None \<in> set tr))
       \<and> (\<forall>x. Stop x \<in> set tr \<longrightarrow>
            (\<exists>pre. tr = pre @ [Stop x, ReleaseExecutor]
                 \<and> (\<forall>y. Stop y \<notin> set pre) \<and> ReleaseExecutor \<notin> set pre))"
  proof -
    from execution_split [OF ex] consider
      (early) "list_all before_loop tr"
      | (escaped) head where "tr = head @ [ReleaseExecutor]" "list_all before_loop head"
      | (looped) head n fin where "tr = head @ ticks n @ fin" "list_all before_loop head"
          "finish rb fin"
      by blast
    then show ?thesis
    proof cases
      case early
      then show ?thesis by (simp add: not_before_loop)
    next
      case escaped
      then show ?thesis by (simp add: not_before_loop)
    next
      case looped
      note fs = finish_stop [OF looped(3)]
      have iff: "(\<exists>x. Stop x \<in> set tr) \<longleftrightarrow> (Alive False \<in> set tr \<or> Kill None \<in> set tr)"
        using fs looped(1,2) by (simp add: not_before_loop not_ticks)
      have "\<exists>pre. tr = pre @ [Stop x, ReleaseExecutor]
                   \<and> (\<forall>y. Stop y \<notin> set pre) \<and> ReleaseExecutor \<notin> set pre" if "Stop x \<in> set tr" for x
      proof -
        from that looped(1,2) have "Stop x \<in> set fin" by (simp add: not_before_loop not_ticks)
        with fs obtain p where p: "fin = p @ [Stop x, ReleaseExecutor]" "\<forall>y. Stop y \<notin> set p"
          "ReleaseExecutor \<notin> set p" by blast
        have "tr = (head @ ticks n @ p) @ [Stop x, ReleaseExecutor]" using looped(1) p(1) by simp
        moreover have "\<forall>y. Stop y \<notin> set (head @ ticks n @ p)"
          using p(2) looped(2) by (simp add: not_before_loop not_ticks)
        moreover have "ReleaseExecutor \<notin> set (head @ ticks n @ p)"
          using p(3) looped(2) by (simp add: not_before_loop not_ticks)
        ultimately show ?thesis by blast
      qed
      with iff show ?thesis by blast
    qed
  qed
  have in_loop: "\<exists>head n fin. tr = head @ ticks n @ fin \<and> list_all before_loop head \<and> finish rb fin
                   \<and> ev \<in> set fin"
    if "ev \<in> set tr" "\<not> before_loop ev" "ev \<noteq> ReleaseExecutor" "ev \<noteq> Alive True" "ev \<noteq> Tick None"
    for ev
  proof -
    from execution_split [OF ex] consider
      (early) "list_all before_loop tr"
      | (escaped) head where "tr = head @ [ReleaseExecutor]" "list_all before_loop head"
      | (looped) head n fin where "tr = head @ ticks n @ fin" "list_all before_loop head"
          "finish rb fin"
      by blast
    then show ?thesis
    proof cases
      case early
      with that show ?thesis by (auto dest: before_loop_set)
    next
      case escaped
      with that show ?thesis by (auto dest: before_loop_set)
    next
      case looped
      with that set_ticks [of n] have "ev \<in> set fin" by (auto dest: before_loop_set)
      with looped show ?thesis by blast
    qed
  qed
  have ticks: "\<exists>pre. tr = pre @ [Tick (Some e), ReleaseExecutor]
                 \<and> (\<forall>y. Stop y \<notin> set pre) \<and> ReleaseExecutor \<notin> set pre"
    if "Tick (Some e) \<in> set tr" "e \<noteq> KeyboardInterrupt" for e
  proof -
    from in_loop [OF that(1)] obtain head n fin where
      l: "tr = head @ ticks n @ fin" "list_all before_loop head" "finish rb fin"
         "Tick (Some e) \<in> set fin" by auto
    from finish_raised [OF l(3), of e] l(4) that(2)
    have "fin = [Alive True, Tick (Some e), ReleaseExecutor]" by blast
    with l(1) have "tr = (head @ ticks n @ [Alive True]) @ [Tick (Some e), ReleaseExecutor]" by simp
    moreover have "\<forall>y. Stop y \<notin> set (head @ ticks n @ [Alive True])"
      using l(2) by (simp add: not_before_loop not_ticks)
    moreover have "ReleaseExecutor \<notin> set (head @ ticks n @ [Alive True])"
      using l(2) by (simp add: not_before_loop not_ticks)
    ultimately show ?thesis by blast
  qed
  have kills: "\<exists>pre. tr = pre @ [Kill (Some e), ReleaseExecutor]
                 \<and> (\<forall>y. Stop y \<notin> set pre) \<and> ReleaseExecutor \<notin> set pre"
    if "Kill (Some e) \<in> set tr" for e
  proof -
    from in_loop [OF that] obtain head n fin where
      l: "tr = head @ ticks n @ fin" "list_all before_loop head" "finish rb fin"
         "Kill (Some e) \<in> set fin" by auto
    let ?p = "[Alive True, Tick (Some KeyboardInterrupt), interrupt_warning]"
    from finish_raised [OF l(3), of e] l(4)
    have "fin = ?p @ [Kill (Some e), ReleaseExecutor]" by simp
    with l(1) have "tr = (head @ ticks n @ ?p) @ [Kill (Some e), ReleaseExecutor]" by simp
    moreover have "\<forall>y. Stop y \<notin> set (head @ ticks n @ ?p)"
      using l(2) by (simp add: not_before_loop not_ticks)
    moreover have "ReleaseExecutor \<notin> set (head @ ticks n @ ?p)"
      using l(2) by (simp add: not_before_loop not_ticks)
    ultimately show ?thesis by blast
  qed
  have starts: "\<exists>pre. tr = pre @ [StartEnd (Some e), ReleaseExecutor]
                 \<and> (\<forall>y. Stop y \<notin> set pre) \<and> ReleaseExecutor \<notin> set pre"
    if "StartEnd (Some e) \<in> set tr" "\<not> is_Exception e" for e
    using ex
  proof cases
    case (before_block e0)
    with that(1) show ?thesis by (auto simp: list_all_iff)
  next
    case (start_escapes pro offs e')
    from start_escapes(3,4) that(1) start_escapes(1) have "e' = e"
      by (auto simp: list_all_iff)
    have bl: "list_all before_loop (pro @ StartBegin # offs)"
      using start_escapes(3,4)
      by (auto simp: list_all_iff dest: prologue_before_loop offer_before_loop)
    have "tr = (pro @ StartBegin # offs) @ [StartEnd (Some e), ReleaseExecutor]"
      using start_escapes(1) \<open>e' = e\<close> by simp
    moreover have "\<forall>y. Stop y \<notin> set (pro @ StartBegin # offs)"
      using bl by (rule before_loop_no_stop)
    moreover have "ReleaseExecutor \<notin> set (pro @ StartBegin # offs)"
      using bl by (rule not_before_loop)
    ultimately show ?thesis by blast
  next
    case (started pro offs fin n)
    from start_event_unique [OF started(2,3,5), of "Some e" None "[]" n] that(1) started(1)
    show ?thesis by simp
  next
    case (start_failed pro offs e' fin n)
    from start_event_unique [OF start_failed(2,3,5), of "Some e" "Some e'" "[start_failure]" n]
      that(1) start_failed(1)
    have "e' = e" by simp
    with start_failed(4) that(2) show ?thesis by simp
  qed
  from stops
  have c1: "(\<exists>x. Stop x \<in> set tr) \<longleftrightarrow> (Alive False \<in> set tr \<or> Kill None \<in> set tr)"
    and c2: "\<forall>x. Stop x \<in> set tr \<longrightarrow>
            (\<exists>pre. tr = pre @ [Stop x, ReleaseExecutor]
                 \<and> (\<forall>y. Stop y \<notin> set pre) \<and> ReleaseExecutor \<notin> set pre)"
    by (rule conjunct1, rule conjunct2)
  have c3: "\<forall>e. Tick (Some e) \<in> set tr \<and> e \<noteq> KeyboardInterrupt \<longrightarrow>
            (\<exists>pre. tr = pre @ [Tick (Some e), ReleaseExecutor]
                 \<and> (\<forall>y. Stop y \<notin> set pre) \<and> ReleaseExecutor \<notin> set pre)"
    using ticks by (intro allI impI) (elim conjE)
  have c4: "\<forall>e. Kill (Some e) \<in> set tr \<longrightarrow>
            (\<exists>pre. tr = pre @ [Kill (Some e), ReleaseExecutor]
                 \<and> (\<forall>y. Stop y \<notin> set pre) \<and> ReleaseExecutor \<notin> set pre)"
    using kills by (intro allI impI)
  have c5: "\<forall>e. StartEnd (Some e) \<in> set tr \<and> \<not> is_Exception e \<longrightarrow>
            (\<exists>pre. tr = pre @ [StartEnd (Some e), ReleaseExecutor]
                 \<and> (\<forall>y. Stop y \<notin> set pre) \<and> ReleaseExecutor \<notin> set pre)"
    using starts by (intro allI impI) (elim conjE)
  from c1 c2 c3 c4 c5 show ?thesis by (intro conjI)
qed

theorem stop_when_loop_ends_witness:
  "Alive False \<in> set (fst (execute ThreadPoolExecutorStrategy quiet 5 [1]))
   \<and> Stop None \<in> set (fst (execute ThreadPoolExecutorStrategy quiet 5 [1]))
   \<and> (\<exists>pre. fst (execute ThreadPoolExecutorStrategy quiet 5 [1]) = pre @ [Stop None, ReleaseExecutor]
          \<and> (\<forall>y. Stop y \<notin> set pre) \<and> ReleaseExecutor \<notin> set pre)
   \<and> Tick (Some (Exception ''RuntimeError''))
         \<in> set (fst (execute ThreadPoolExecutorStrategy failing_tick 5 [1, 2]))
   \<and> Exception ''RuntimeError'' \<noteq> KeyboardInterrupt
   \<and> (\<exists>pre. fst (execute ThreadPoolExecutorStrategy failing_tick 5 [1, 2]) =
               pre @ [Tick (Some (Exception ''RuntimeError'')), ReleaseExecutor]
          \<and> (\<forall>y. Stop y \<notin> set pre) \<and> ReleaseExecutor \<notin> set pre)"
proof -
  let ?tr = "[CreateContext None, Write None, CreateExecutor ThreadPoolExecutor (Some 1) None,
       EnterExecutor, StartBegin, Offer 1,
       Submit \<lparr>made_by = ThreadPoolExecutor, max_workers = Some 1\<rparr> (Runner 1) None,
       Append (Future (Runner 1)), StartEnd None, Alive True, Tick None, Alive False,
       Stop None, ReleaseExecutor]"
  let ?ex = "\<lparr>made_by = ThreadPoolExecutor, max_workers = Some 2\<rparr>"
  let ?tr' = "[CreateContext None, Write None, CreateExecutor ThreadPoolExecutor (Some 2) None,
       EnterExecutor, StartBegin, Offer 1, Submit ?ex (Runner 1) None,
       Append (Future (Runner 1)), Offer 2, Submit ?ex (Runner 2) None,
       Append (Future (Runner 2)), StartEnd None, Alive True,
       Tick (Some (Exception ''RuntimeError'')), ReleaseExecutor]"
  have run: "execute ThreadPoolExecutorStrategy quiet 5 [1] = (?tr, Some (Inr 0))"
    by (simp add: run_defs)
  have run': "execute ThreadPoolExecutorStrategy failing_tick 5 [1, 2] =
                (?tr', Some (Inl (Exception ''RuntimeError'')))"
    by (simp add: run_defs failing_tick_def)
  have m: "Alive False \<in> set ?tr" "Stop None \<in> set ?tr" by simp_all
  have m': "Tick (Some (Exception ''RuntimeError'')) \<in> set ?tr'" by simp
  have n': "Exception ''RuntimeError'' \<noteq> KeyboardInterrupt" by simp
  from stop_when_loop_ends [OF run] m
  have a: "\<exists>pre. ?tr = pre @ [Stop None, ReleaseExecutor]
          \<and> (\<forall>y. Stop y \<notin> set pre) \<and> ReleaseExecutor \<notin> set pre" by blast
  from stop_when_loop_ends [OF run'] m' n'
  have b: "\<exists>pre. ?tr' = pre @ [Tick (Some (Exception ''RuntimeError'')), ReleaseExecutor]
          \<and> (\<forall>y. Stop y \<notin> set pre) \<and> ReleaseExecutor \<notin> set pre" by blast
  from m a m' n' b show ?thesis unfolding run run' fst_conv by (intro conjI)
qed

text \<open>
  The claim has \<^verbatim>\<open>stop()\<close> called in every execution. When \<^verbatim>\<open>tick()\<close> raises something
  other than \<^verbatim>\<open>KeyboardInterrupt\<close>, the exception leaves \<^verbatim>\<open>execute\<close>; the pool is released
  and \<^verbatim>\<open>stop()\<close> is not called.
\<close>

theorem tick_failure_skips_stop:
  "execute ThreadPoolExecutorStrategy failing_tick 5 [1] =
     ([CreateContext None, Write None, CreateExecutor ThreadPoolExecutor (Some 1) None,
       EnterExecutor, StartBegin, Offer 1,
       Submit \<lparr>made_by = ThreadPoolExecutor, max_workers = Some 1\<rparr> (Runner 1) None,
       Append (Future (Runner 1)), StartEnd None, Alive True,
       Tick (Some (Exception ''RuntimeError'')), ReleaseExecutor],
      Some (Inl (Exception ''RuntimeError'')))"
  by (simp add: run_defs failing_tick_def)

subsection \<open>C5: the asynchronous strategy is gated\<close>

text \<open>
  Claim C5. Without the ALPHA setting the constructor of
  \<^verbatim>\<open>AsyncThreadPoolExecutorStrategy\<close> raises \<^verbatim>\<open>NotImplementedError\<close>, having done nothing
  but read the setting: no executor, event loop or context has been asked for. With the
  setting it returns the strategy.
\<close>

theorem alpha_gate:
  "(\<not> setting_ALPHA env \<longrightarrow>
      AsyncThreadPoolExecutorStrategy_init env name arg =
        ([GetSetting ''ALPHA'' False],
         Inl (NotImplementedError
                (name @ '' is experimental, you need to explicitely activate it using ALPHA=True in system env.''))))
   \<and> (setting_ALPHA env \<longrightarrow>
      (\<exists>obj. AsyncThreadPoolExecutorStrategy_init env name arg = ([GetSetting ''ALPHA'' True], Inr obj)
         \<and> strategy_class obj = AsyncThreadPoolExecutorStrategy))"
  by (simp add: AsyncThreadPoolExecutorStrategy_init_def Strategy_init_def)

theorem alpha_gate_witness:
  "\<not> setting_ALPHA alpha_off
   \<and> AsyncThreadPoolExecutorStrategy_init alpha_off ''AsyncThreadPoolExecutorStrategy'' None =
       ([GetSetting ''ALPHA'' False],
        Inl (NotImplementedError
               ''AsyncThreadPoolExecutorStrategy is experimental, you need to explicitely activate it using ALPHA=True in system env.''))
   \<and> setting_ALPHA quiet
   \<and> (\<exists>obj. AsyncThreadPoolExecutorStrategy_init quiet ''AsyncThreadPoolExecutorStrategy'' None =
              ([GetSetting ''ALPHA'' True], Inr obj)
          \<and> strategy_class obj = AsyncThreadPoolExecutorStrategy)"
  using alpha_gate [of alpha_off "''AsyncThreadPoolExecutorStrategy''" None]
    alpha_gate [of quiet "''AsyncThreadPoolExecutorStrategy''" None]
  by (simp add: alpha_off_def quiet_def)

subsection \<open>C6: a failed submission does not end the start\<close>

text \<open>
  Claim C6, as the code has it. Take nodes whose submission either succeeds or raises
  an exception derived from \<^verbatim>\<open>Exception\<close>. For each node whose submission raises, the
  starter logs a critical record and returns \<^verbatim>\<open>None\<close>. Offering all the nodes to the
  starter, one after the other, comes to its end: every node is offered and every call
  of the starter returns.
\<close>

theorem submission_failure_contained:
  assumes "\<forall>m\<in>set ns. \<forall>e. executor_submit env ex (Runner m) = Some e \<longrightarrow> is_Exception e"
  shows "(\<forall>m\<in>set ns. \<forall>e w. executor_submit env ex (Runner m) = Some e \<longrightarrow>
            starter env ex m w =
              (Inr None, emit [Submit ex (Runner m) (Some e), LogCritical ''futures.append''] w))
       \<and> (\<exists>w'. offer_all (starter env ex) ns w = (Inr (), w')
               \<and> offered (trace w') = offered (trace w) @ ns)"
  using assms offer_all_contained [OF assms, of w] by (auto intro: starter_contains)

theorem submission_failure_contained_witness:
  "executor_submit refusing_pool pool2 (Runner 1) = Some (Exception ''RuntimeError'')
   \<and> executor_submit refusing_pool pool2 (Runner 2) = None
   \<and> starter refusing_pool pool2 1 (fresh (0::nat)) =
       (Inr None,
        emit [Submit pool2 (Runner 1) (Some (Exception ''RuntimeError'')),
              LogCritical ''futures.append''] (fresh 0))
   \<and> (\<exists>w'. offer_all (starter refusing_pool pool2) [1, 2] (fresh (0::nat)) = (Inr (), w')
          \<and> offered (trace w') = [1, 2])"
proof -
  have s1: "executor_submit refusing_pool pool2 (Runner 1) = Some (Exception ''RuntimeError'')"
    and s2: "executor_submit refusing_pool pool2 (Runner 2) = None"
    by (simp_all add: refusing_pool_def quiet_def)
  have h: "\<forall>m\<in>set [1, 2]. \<forall>e. executor_submit refusing_pool pool2 (Runner m) = Some e
             \<longrightarrow> is_Exception e"
    by (simp add: refusing_pool_def quiet_def)
  have one: "(1::nat) \<in> set [1, 2]" by simp
  from submission_failure_contained [OF h, of "fresh 0"]
  have a: "\<forall>m\<in>set [1, 2]. \<forall>e w. executor_submit refusing_pool pool2 (Runner m) = Some e \<longrightarrow>
            starter refusing_pool pool2 m w =
              (Inr None, emit [Submit pool2 (Runner m) (Some e), LogCritical ''futures.append''] w)"
    and b: "\<exists>w'. offer_all (starter refusing_pool pool2) [1, 2] (fresh (0::nat)) = (Inr (), w')
               \<and> offered (trace w') = offered (trace (fresh (0::nat))) @ [1, 2]"
    by blast+
  from a one s1 have c: "starter refusing_pool pool2 1 (fresh (0::nat)) =
       (Inr None,
        emit [Submit pool2 (Runner 1) (Some (Exception ''RuntimeError'')),
              LogCritical ''futures.append''] (fresh 0))"
    by blast
  have "offered (trace (fresh (0::nat))) = []" by (simp add: fresh_def)
  with b have d: "\<exists>w'. offer_all (starter refusing_pool pool2) [1, 2] (fresh (0::nat)) = (Inr (), w')
          \<and> offered (trace w') = [1, 2]" by simp
  from s1 s2 c d show ?thesis by (intro conjI)
qed

text \<open>
  The claim says an exception. A \<^verbatim>\<open>KeyboardInterrupt\<close> raised by \<^verbatim>\<open>executor.submit\<close> is not
  caught by \<^verbatim>\<open>except Exception\<close>: it leaves the starter, and nothing is logged.
\<close>

theorem interrupt_leaves_starter:
  "starter interrupted_submit pool2 1 (fresh (0::nat)) =
     (Inl KeyboardInterrupt,
      \<lparr>ctx = 0, futures = [], trace = [Submit pool2 (Runner 1) (Some KeyboardInterrupt)]\<rparr>)"
  by (simp add: run_defs interrupted_submit_def)

subsection \<open>C7: the pool has one worker for each node\<close>

text \<open>
  Claim C7. \<^verbatim>\<open>create_executor\<close> of the thread and of the process strategy calls the
  factory of the class with \<^verbatim>\<open>max_workers=len(graph)\<close>, and the executor it returns was
  made by that factory with that number of workers.
\<close>

theorem pool_sized_to_graph:
  assumes "s = ThreadPoolExecutorStrategy \<or> s = ProcessPoolExecutorStrategy"
  shows "fst (create_executor s env g) =
           CreateExecutor (executor_factory s) (Some (length g))
             (factory_call env (executor_factory s) (Some (length g)))
       \<and> (\<forall>p. snd (create_executor s env g) = Inr p \<longrightarrow>
            made_by p = executor_factory s \<and> max_workers p = Some (length g))"
  using assms by (auto simp: construct_def split: option.splits)

theorem pool_sized_to_graph_witness:
  "(ThreadPoolExecutorStrategy = ThreadPoolExecutorStrategy
      \<or> ThreadPoolExecutorStrategy = ProcessPoolExecutorStrategy)
   \<and> snd (create_executor ThreadPoolExecutorStrategy quiet [1, 2, 3]) =
       Inr \<lparr>made_by = ThreadPoolExecutor, max_workers = Some 3\<rparr>
   \<and> fst (create_executor ThreadPoolExecutorStrategy quiet [1, 2, 3]) =
       CreateExecutor ThreadPoolExecutor (Some 3) None
   \<and> max_workers \<lparr>made_by = ThreadPoolExecutor, max_workers = Some 3\<rparr> = Some (length [1::nat, 2, 3])"
proof -
  have s: "ThreadPoolExecutorStrategy = ThreadPoolExecutorStrategy
      \<or> ThreadPoolExecutorStrategy = ProcessPoolExecutorStrategy" by simp
  have r: "snd (create_executor ThreadPoolExecutorStrategy quiet [1, 2, 3]) =
       Inr \<lparr>made_by = ThreadPoolExecutor, max_workers = Some 3\<rparr>"
    and e: "fst (create_executor ThreadPoolExecutorStrategy quiet [1, 2, 3]) =
       CreateExecutor ThreadPoolExecutor (Some 3) None"
    by (simp_all add: construct_def quiet_def)
  from pool_sized_to_graph [OF s, of quiet "[1, 2, 3]"] r
  have m: "max_workers \<lparr>made_by = ThreadPoolExecutor, max_workers = Some 3\<rparr>
            = Some (length [1::nat, 2, 3])"
    by blast
  from s r e m show ?thesis by (intro conjI)
qed

subsection \<open>C8: no tick before start has ended\<close>

text \<open>
  Claim C8, as the code has it. A call of \<^verbatim>\<open>tick()\<close> comes after \<^verbatim>\<open>context.start\<close> was
  called and has ended, and no tick comes before that end. If start returned, every
  node of the graph had been offered to the starter, in order. If start raised, it
  raised an exception derived from \<^verbatim>\<open>Exception\<close>, which was caught.
\<close>

theorem ticks_follow_start:
  assumes "execute s env fuel g = (tr, r)" and "Tick x \<in> set tr"
  shows "\<exists>pre se post. tr = pre @ StartEnd se # post
           \<and> StartBegin \<in> set pre \<and> (\<forall>y. Tick y \<notin> set pre)
           \<and> (se = None \<longrightarrow> offered pre = g)
           \<and> (\<forall>e. se = Some e \<longrightarrow> is_Exception e)"
proof -
  from execute_shape [OF assms(1)] obtain rb where "execution g tr rb" by blast
  then show ?thesis
  proof cases
  case (before_block e0)
  with assms(2) show ?thesis by (simp add: prologue_quiet)
next
  case (start_escapes pro offs e)
  with assms(2) show ?thesis by (simp add: prologue_quiet offered_offers)
next
  case (started pro offs fin n)
  have "tr = (pro @ StartBegin # offs) @ StartEnd None # (ticks n @ fin)"
    using started(1) by simp
  moreover have "offered (pro @ StartBegin # offs) = g"
    using started(2,4) by (simp add: offered_prologue)
  moreover have "\<forall>y. Tick y \<notin> set (pro @ StartBegin # offs)"
    using started(2,3) by (simp add: prologue_quiet offered_offers)
  moreover have "StartBegin \<in> set (pro @ StartBegin # offs)" by simp
  ultimately show ?thesis by blast
next
  case (start_failed pro offs e fin n)
  have "tr = (pro @ StartBegin # offs) @ StartEnd (Some e) # (start_failure # ticks n @ fin)"
    using start_failed(1) by simp
  moreover have "\<forall>y. Tick y \<notin> set (pro @ StartBegin # offs)"
    using start_failed(2,3) by (simp add: prologue_quiet offered_offers)
  moreover have "StartBegin \<in> set (pro @ StartBegin # offs)" by simp
  ultimately show ?thesis using start_failed(4) by blast
qed
qed

theorem ticks_follow_start_witness:
  "Tick None \<in> set (fst (execute ThreadPoolExecutorStrategy quiet 5 [1, 2]))
   \<and> (\<exists>pre se post.
         fst (execute ThreadPoolExecutorStrategy quiet 5 [1, 2]) = pre @ StartEnd se # post
         \<and> StartBegin \<in> set pre \<and> (\<forall>y. Tick y \<notin> set pre)
         \<and> (se = None \<longrightarrow> offered pre = [1, 2])
         \<and> (\<forall>e. se = Some e \<longrightarrow> is_Exception e))
   \<and> StartEnd None \<in> set (fst (execute ThreadPoolExecutorStrategy quiet 5 [1, 2]))"
proof -
  let ?ex = "\<lparr>made_by = ThreadPoolExecutor, max_workers = Some 2\<rparr>"
  let ?tr = "[CreateContext None, Write None, CreateExecutor ThreadPoolExecutor (Some 2) None,
       EnterExecutor, StartBegin, Offer 1, Submit ?ex (Runner 1) None,
       Append (Future (Runner 1)), Offer 2, Submit ?ex (Runner 2) None,
       Append (Future (Runner 2)), StartEnd None,
       Alive True, Tick None, Alive True, Tick None, Alive False, Stop None,
       ReleaseExecutor]"
  have run: "execute ThreadPoolExecutorStrategy quiet 5 [1, 2] = (?tr, Some (Inr 0))"
    by (simp add: run_defs)
  have m: "Tick None \<in> set ?tr" and n: "StartEnd None \<in> set ?tr" by simp_all
  note c = ticks_follow_start [OF run m]
  from m c n show ?thesis unfolding run fst_conv by (intro conjI)
qed

text \<open>
  The claim has every node offered before the first tick. When start fails before it
  offers the nodes, the failure is logged and the context is ticked all the same.
\<close>

theorem tick_after_failed_start:
  "execute ThreadPoolExecutorStrategy failing_start 5 [1, 2] =
     ([CreateContext None, Write None, CreateExecutor ThreadPoolExecutor (Some 2) None,
       EnterExecutor, StartBegin, StartEnd (Some (Exception ''RuntimeError'')),
       LogCritical ''Exception caught while starting execution context.'',
       Alive True, Tick None, Alive True, Tick None, Alive False, Stop None, ReleaseExecutor],
      Some (Inr 0))"
  by (simp add: run_defs failing_start_def)

subsection \<open>C9: what is not derived from Exception is not caught\<close>

text \<open>
  Claim C9, as the code has it. An exception \<open>e\<close> that is not derived from \<^verbatim>\<open>Exception\<close>
  and leaves the scope of the node leaves the runner: so when \<^verbatim>\<open>__enter__\<close> raises it,
  when \<^verbatim>\<open>loop\<close> raises it and \<^verbatim>\<open>__exit__\<close> does not suppress it, and when \<^verbatim>\<open>__exit__\<close>
  raises it. It leaves the starter when \<^verbatim>\<open>executor.submit\<close> raises it. No critical record
  is written. When \<^verbatim>\<open>loop\<close> raises it and \<^verbatim>\<open>__exit__\<close> suppresses it, the runner returns
  and nothing is logged; when \<^verbatim>\<open>__exit__\<close> raises an exception derived from \<^verbatim>\<open>Exception\<close>
  in its place, that one is logged and the runner returns.
\<close>

theorem base_exceptions_escape:
  assumes "\<not> is_Exception e"
  shows "(snd (node_scope env n) = Some e \<longrightarrow> runner env n = (fst (node_scope env n), Inl e))
       \<and> (node_enter env n = Some e \<longrightarrow> runner env n = ([NodeEnter n (Some e)], Inl e))
       \<and> (node_enter env n = None \<and> node_loop env n = Some e
            \<and> node_exit env n (Some e) = Inr False \<longrightarrow>
          runner env n =
            ([NodeEnter n None, NodeLoop n (Some e), NodeExit n (Some e) (Inr False)], Inl e))
       \<and> (node_enter env n = None \<and> node_exit env n (node_loop env n) = Inl e \<longrightarrow>
          runner env n =
            ([NodeEnter n None, NodeLoop n (node_loop env n),
              NodeExit n (node_loop env n) (Inl e)], Inl e))
       \<and> (node_enter env n = None \<and> node_loop env n = Some e
            \<and> node_exit env n (Some e) = Inr True \<longrightarrow>
          runner env n =
            ([NodeEnter n None, NodeLoop n (Some e), NodeExit n (Some e) (Inr True)], Inr ()))
       \<and> (node_enter env n = None \<and> node_loop env n = Some e
            \<and> node_exit env n (Some e) = Inl e' \<and> is_Exception e' \<longrightarrow>
          runner env n =
            ([NodeEnter n None, NodeLoop n (Some e), NodeExit n (Some e) (Inl e'),
              LogCritical ''Critical error in threadpool node starter.''], Inr ()))
       \<and> (executor_submit env ex (Runner n) = Some e \<longrightarrow>
          starter env ex n w = (Inl e, emit [Submit ex (Runner n) (Some e)] w))"
proof -
  have "snd (node_scope env n) = Some e \<longrightarrow> runner env n = (fst (node_scope env n), Inl e)"
    using assms by (cases "node_scope env n") (simp add: runner_def)
  moreover have "node_enter env n = Some e \<longrightarrow> runner env n = ([NodeEnter n (Some e)], Inl e)"
    using assms by (simp add: runner_def node_scope_def)
  moreover have "node_enter env n = None \<and> node_loop env n = Some e
            \<and> node_exit env n (Some e) = Inr False \<longrightarrow>
          runner env n =
            ([NodeEnter n None, NodeLoop n (Some e), NodeExit n (Some e) (Inr False)], Inl e)"
    using assms by (simp add: runner_def node_scope_def Let_def)
  moreover have "node_enter env n = None \<and> node_exit env n (node_loop env n) = Inl e \<longrightarrow>
          runner env n =
            ([NodeEnter n None, NodeLoop n (node_loop env n),
              NodeExit n (node_loop env n) (Inl e)], Inl e)"
    using assms by (simp add: runner_def node_scope_def Let_def)
  moreover have "node_enter env n = None \<and> node_loop env n = Some e
            \<and> node_exit env n (Some e) = Inr True \<longrightarrow>
          runner env n =
            ([NodeEnter n None, NodeLoop n (Some e), NodeExit n (Some e) (Inr True)], Inr ())"
    by (simp add: runner_def node_scope_def Let_def)
  moreover have "node_enter env n = None \<and> node_loop env n = Some e
            \<and> node_exit env n (Some e) = Inl e' \<and> is_Exception e' \<longrightarrow>
          runner env n =
            ([NodeEnter n None, NodeLoop n (Some e), NodeExit n (Some e) (Inl e'),
              LogCritical ''Critical error in threadpool node starter.''], Inr ())"
    by (simp add: runner_def node_scope_def Let_def)
  moreover have "executor_submit env ex (Runner n) = Some e \<longrightarrow>
          starter env ex n w = (Inl e, emit [Submit ex (Runner n) (Some e)] w)"
    using assms by (simp add: starter_def)
  ultimately show ?thesis by (intro conjI)
qed

theorem base_exceptions_escape_witness:
  "\<not> is_Exception SystemExit
   \<and> node_enter exiting_node 1 = None \<and> node_loop exiting_node 1 = Some SystemExit
   \<and> node_exit exiting_node 1 (Some SystemExit) = Inr False
   \<and> runner exiting_node 1 =
       ([NodeEnter 1 None, NodeLoop 1 (Some SystemExit),
         NodeExit 1 (Some SystemExit) (Inr False)], Inl SystemExit)
   \<and> \<not> is_Exception KeyboardInterrupt
   \<and> executor_submit interrupted_submit pool2 (Runner 1) = Some KeyboardInterrupt
   \<and> starter interrupted_submit pool2 1 (fresh (0::nat)) =
       (Inl KeyboardInterrupt,
        emit [Submit pool2 (Runner 1) (Some KeyboardInterrupt)] (fresh 0))"
proof -
  have a: "\<not> is_Exception SystemExit" and b: "\<not> is_Exception KeyboardInterrupt" by simp_all
  have c: "node_enter exiting_node 1 = None" "node_loop exiting_node 1 = Some SystemExit"
    "node_exit exiting_node 1 (Some SystemExit) = Inr False"
    by (simp_all add: exiting_node_def quiet_def)
  have d: "executor_submit interrupted_submit pool2 (Runner 1) = Some KeyboardInterrupt"
    by (simp add: interrupted_submit_def quiet_def)
  from base_exceptions_escape [OF a, where env = exiting_node and n = 1] c
  have r: "runner exiting_node 1 =
       ([NodeEnter 1 None, NodeLoop 1 (Some SystemExit),
         NodeExit 1 (Some SystemExit) (Inr False)], Inl SystemExit)"
    by blast
  from base_exceptions_escape
         [OF b, where env = interrupted_submit and n = 1 and ex = pool2 and w = "fresh 0"] d
  have s: "starter interrupted_submit pool2 1 (fresh (0::nat)) =
       (Inl KeyboardInterrupt,
        emit [Submit pool2 (Runner 1) (Some KeyboardInterrupt)] (fresh 0))"
    by blast
  from a c r b d s show ?thesis by (intro conjI)
qed

text \<open>
  The claim has every such exception raised inside the scope leave the runner. A
  \<^verbatim>\<open>SystemExit\<close> raised by the loop of a node whose \<^verbatim>\<open>__exit__\<close> returns a true value ends
  in the \<^verbatim>\<open>with\<close> statement: the runner returns.
\<close>

theorem suppressed_exit_stays_in_runner:
  "runner suppressing_node 1 =
     ([NodeEnter 1 None, NodeLoop 1 (Some SystemExit), NodeExit 1 (Some SystemExit) (Inr True)],
      Inr ())"
  by (simp add: run_defs suppressing_node_def)

subsection \<open>C10: the asynchronous starter\<close>

text \<open>
  Claim C10. The starter of the asynchronous strategy is \<^verbatim>\<open>loop.run_in_executor\<close>
  applied to the executor and the starter of the base class. When it returns, it
  returns an awaitable, not \<^verbatim>\<open>None\<close>, and has submitted the call of the base starter to
  the executor. A worker that runs this unit of work does what the base starter does,
  so it submits the runner of the node to the same executor. The executor that the
  strategy creates is a thread pool of \<^verbatim>\<open>len(graph)\<close> workers.
\<close>

theorem async_starter_schedules_on_pool:
  "get_starter AsyncThreadPoolExecutorStrategy env ex n w = run_in_executor env ex (Starter ex n) w
   \<and> (\<forall>h w'. get_starter AsyncThreadPoolExecutorStrategy env ex n w = (Inr h, w') \<longrightarrow>
         h = Some (AsyncFuture (Starter ex n))
         \<and> trace w' = trace w @ [CheckLoop None, Submit ex (Starter ex n) None])
   \<and> snd (run_task env (Starter ex n) w) = snd (starter env ex n w)
   \<and> (\<exists>x. Submit ex (Runner n) x \<in> set (trace (snd (run_task env (Starter ex n) w))))
   \<and> (\<forall>ev p. create_executor AsyncThreadPoolExecutorStrategy env g = (ev, Inr p) \<longrightarrow>
         made_by p = ThreadPoolExecutor \<and> max_workers p = Some (length g))"
  by (auto simp: run_in_executor_def starter_def construct_def split: option.splits sum.splits)

theorem async_starter_schedules_on_pool_witness:
  "create_executor AsyncThreadPoolExecutorStrategy quiet [1, 2] =
     (CreateExecutor ThreadPoolExecutor (Some 2) None, Inr pool2)
   \<and> get_starter AsyncThreadPoolExecutorStrategy quiet pool2 1 (fresh (0::nat)) =
       (Inr (Some (AsyncFuture (Starter pool2 1))),
        emit [CheckLoop None, Submit pool2 (Starter pool2 1) None] (fresh 0))
   \<and> run_task quiet (Starter pool2 1) (fresh (0::nat)) =
       (Inr (),
        \<lparr>ctx = 0, futures = [Future (Runner 1)],
         trace = [Submit pool2 (Runner 1) None, Append (Future (Runner 1))]\<rparr>)"
  using async_starter_schedules_on_pool [of quiet pool2 1 "fresh 0" "[1, 2]"]
  by (simp add: run_defs)

end
